theory Spec2Isabelle
  imports Complex_Main "HOL-Library.Word" "HOL-Library.Sublist"
begin

section \<open>JavaScript strings\<close>

text \<open>
  A JavaScript string is a sequence of UTF-16 code units. The regular expressions of
  \<^verbatim>\<open>src/index.ts\<close> carry no \<^verbatim>\<open>u\<close> flag, so they too work on code units.
  \<open>str\<close> embeds an ASCII literal of the source.
\<close>

type_synonym jschar = "16 word"
type_synonym jsstring = "jschar list"

definition str :: "string \<Rightarrow> jsstring" where
  "str s = map (\<lambda>c. of_nat (of_char c)) s"

text \<open>\<^verbatim>\<open>s.split(sep)\<close> for a one-character separator: \<^verbatim>\<open>''.split('/')\<close> is \<^verbatim>\<open>['']\<close>.\<close>

fun split_on :: "'a \<Rightarrow> 'a list \<Rightarrow> 'a list list" where
  "split_on sep [] = [[]]"
| "split_on sep (c # cs) =
     (if c = sep then [] # split_on sep cs
      else (case split_on sep cs of [] \<Rightarrow> [[c]] | p # ps \<Rightarrow> (c # p) # ps))"

text \<open>\<^verbatim>\<open>s.replace(/[...]/g, r)\<close> for a character class and a one-character replacement.\<close>

definition replace_chars :: "jschar list \<Rightarrow> jschar \<Rightarrow> jsstring \<Rightarrow> jsstring" where
  "replace_chars cls r s = map (\<lambda>c. if c \<in> set cls then r else c) s"

text \<open>The decimal digits of a number, as a template literal prints \<^verbatim>\<open>response.status\<close>.\<close>

definition digit :: "nat \<Rightarrow> jschar" where
  "digit d = of_nat (48 + d)"

fun show_nat :: "nat \<Rightarrow> jsstring" where
  "show_nat n = (if n < 10 then [digit n] else show_nat (n div 10) @ [digit (n mod 10)])"

declare show_nat.simps [simp del]

section \<open>The two regular expressions of the sitemap step\<close>

text \<open>
  \<^verbatim>\<open>.\<close> matches every code unit but the four line terminators; \<^verbatim>\<open>\s\<close> matches the
  white space and line terminator code units of ECMAScript.
\<close>

definition is_line_terminator :: "jschar \<Rightarrow> bool" where
  "is_line_terminator c \<longleftrightarrow> c = 0x0A \<or> c = 0x0D \<or> c = 0x2028 \<or> c = 0x2029"

definition is_white_space :: "jschar \<Rightarrow> bool" where
  "is_white_space c \<longleftrightarrow>
     c = 0x09 \<or> c = 0x0A \<or> c = 0x0B \<or> c = 0x0C \<or> c = 0x0D \<or> c = 0x20 \<or> c = 0xA0 \<or>
     c = 0x1680 \<or> (0x2000 \<le> c \<and> c \<le> 0x200A) \<or> c = 0x2028 \<or> c = 0x2029 \<or>
     c = 0x202F \<or> c = 0x205F \<or> c = 0x3000 \<or> c = 0xFEFF"

text \<open>
  \<^verbatim>\<open>(.*?)lit\<close> matched at the start of a string: the lazy star takes the shortest run of
  non-terminators after which \<open>lit\<close> follows. The result is the capture.
\<close>

fun lazy_dot_until :: "jsstring \<Rightarrow> jsstring \<Rightarrow> jsstring option" where
  "lazy_dot_until lit [] = (if lit = [] then Some [] else None)"
| "lazy_dot_until lit (c # cs) =
     (if prefix lit (c # cs) then Some []
      else if is_line_terminator c then None
      else map_option ((#) c) (lazy_dot_until lit cs))"

text \<open>
  \<^verbatim>\<open>[...s.matchAll(re)].map(m => m[1])\<close> for a global regular expression with one group.
  The matcher \<open>m\<close> tries the expression at the start of its argument and yields the capture
  and the length of the whole match. The scan goes on after the match (one code unit further
  after an empty match), and one code unit further where there is none.
\<close>

function match_all :: "(jsstring \<Rightarrow> (jsstring \<times> nat) option) \<Rightarrow> jsstring \<Rightarrow> jsstring list" where
  "match_all m [] = (case m [] of None \<Rightarrow> [] | Some (cap, n) \<Rightarrow> [cap])"
| "match_all m (c # cs) =
     (case m (c # cs) of
        None \<Rightarrow> match_all m cs
      | Some (cap, n) \<Rightarrow> cap # match_all m (drop (max 1 n) (c # cs)))"
  by pat_completeness auto
termination
  by (relation "measure (\<lambda>(m, s). length s)") auto

text \<open>\<^verbatim>\<open>/<loc>(.*?)<\/loc>/g\<close>\<close>

definition loc_match :: "jsstring \<Rightarrow> (jsstring \<times> nat) option" where
  "loc_match s =
     (if prefix (str ''<loc>'') s then
        (case lazy_dot_until (str ''</loc>'') (drop 5 s) of
           None \<Rightarrow> None
         | Some cap \<Rightarrow> Some (cap, 5 + length cap + 6))
      else None)"

text \<open>
  \<^verbatim>\<open>/<a\s+href="(.*?)"/g\<close>. The greedy \<^verbatim>\<open>\s+\<close> has to take the whole run of white space:
  what follows it starts with \<^verbatim>\<open>h\<close>, which is no white space.
\<close>

definition a_match :: "jsstring \<Rightarrow> (jsstring \<times> nat) option" where
  "a_match s =
     (if prefix (str ''<a'') s then
        (let ws = takeWhile is_white_space (drop 2 s);
             r = dropWhile is_white_space (drop 2 s)
         in if ws \<noteq> [] \<and> prefix (str ''href='' @ [0x22]) r then
              (case lazy_dot_until [0x22] (drop 6 r) of
                 None \<Rightarrow> None
               | Some cap \<Rightarrow> Some (cap, 2 + length ws + 6 + length cap + 1))
            else None)
      else None)"

definition locUrls :: "jsstring \<Rightarrow> jsstring list" where
  "locUrls xml = match_all loc_match xml"

definition aTags :: "jsstring \<Rightarrow> jsstring list" where
  "aTags xml = match_all a_match xml"

section \<open>Sets with insertion order\<close>

text \<open>
  \<^verbatim>\<open>[...new Set(xs)]\<close>: a JavaScript \<^verbatim>\<open>Set\<close> iterates in insertion order, and adding
  a value it holds changes nothing.
\<close>

definition set_add :: "'a list \<Rightarrow> 'a \<Rightarrow> 'a list" where
  "set_add s x = (if x \<in> set s then s else s @ [x])"

definition new_Set :: "'a list \<Rightarrow> 'a list" where
  "new_Set xs = foldl set_add [] xs"

text \<open>The position at which a value is first seen in a list.\<close>

definition first_index :: "'a list \<Rightarrow> 'a \<Rightarrow> nat" where
  "first_index xs x = length (takeWhile (\<lambda>y. y \<noteq> x) xs)"

text \<open>
  The spec's words for the union: duplicates removed, first-seen order preserved. Each value
  stays where it first occurs.
\<close>

fun first_seen :: "'a list \<Rightarrow> 'a list" where
  "first_seen [] = []"
| "first_seen (x # xs) = x # filter (\<lambda>y. y \<noteq> x) (first_seen xs)"

section \<open>JSON values\<close>

text \<open>
  The values \<^verbatim>\<open>JSON.parse\<close> yields. Of a number only whether it is zero matters below.
  In an object a repeated key keeps its last value. \<^verbatim>\<open>undefined\<close> is \<open>None\<close>.
\<close>

datatype json =
    JNull
  | JBool bool
  | JNum real
  | JStr jsstring
  | JArr "json list"
  | JObj "(jsstring \<times> json) list"

text \<open>\<^verbatim>\<open>v?.key\<close>: only an object has own properties; on every other value it is undefined.\<close>

fun opt_prop :: "json option \<Rightarrow> jsstring \<Rightarrow> json option" where
  "opt_prop (Some (JObj kvs)) key = map_of (rev kvs) key"
| "opt_prop _ key = None"

fun truthy :: "json option \<Rightarrow> bool" where
  "truthy None = False"
| "truthy (Some JNull) = False"
| "truthy (Some (JBool b)) = b"
| "truthy (Some (JNum x)) = (x \<noteq> 0)"
| "truthy (Some (JStr s)) = (s \<noteq> [])"
| "truthy (Some (JArr vs)) = True"
| "truthy (Some (JObj kvs)) = True"

fun is_string :: "json option \<Rightarrow> bool" where
  "is_string (Some (JStr s)) = True"
| "is_string _ = False"

fun the_string :: "json option \<Rightarrow> jsstring" where
  "the_string (Some (JStr s)) = s"
| "the_string _ = []"

section \<open>The outside world of the workflow\<close>

text \<open>
  What \<^verbatim>\<open>fetch\<close> resolves to. \<^verbatim>\<open>response.ok\<close> is true for a status from 200 to 299.
  Reading the body can reject, which is \<open>Inl\<close> with the error's message.
\<close>

record response =
  resp_status :: nat
  resp_statusText :: jsstring
  resp_text :: "jsstring + jsstring"

definition ok :: "nat \<Rightarrow> bool" where
  "ok status \<longleftrightarrow> 200 \<le> status \<and> status \<le> 299"

text \<open>
  The answer of the content-extraction service: its status, and what
  \<^verbatim>\<open>const { markdown } = await res.json()\<close> gives, a rejection or the markdown
  (a string, as the source's type assertion says).
\<close>

record scrape_response =
  sr_status :: nat
  sr_markdown :: "jsstring + jsstring"

text \<open>
  Everything one attempt of a step reads from outside: the two \<^verbatim>\<open>fetch\<close> calls (a rejected
  promise is \<open>Inl\<close> with the message), the clock, the two functions of \<^verbatim>\<open>fflate\<close> and the
  bucket. The extraction service is asked once per URL of the list, so its answer is given
  per position in the list.
\<close>

record io =
  fetch_sitemap :: "jsstring \<Rightarrow> jsstring + response"
  fetch_scrape :: "nat \<Rightarrow> jsstring \<Rightarrow> jsstring + scrape_response"
  now_iso :: jsstring
  strToU8 :: "jsstring \<Rightarrow> 8 word list"
  zipSync :: "(jsstring \<times> 8 word list) list \<Rightarrow> jsstring + 8 word list"
  bucket_put :: "jsstring \<Rightarrow> 8 word list \<Rightarrow> jsstring option"

text \<open>What a run does that can be observed from outside, in order.\<close>

datatype event =
    Invoke jsstring
  | SitemapGet jsstring
  | ScrapePost jsstring
  | Warn jsstring
  | Delay nat
  | BucketPut jsstring

section \<open>The step bodies of \<^verbatim>\<open>MyWorkflow.run\<close>\<close>

text \<open>
  Each body yields its result, \<open>Inl\<close> with the message of the error it throws, and the
  events it caused. Every body wraps what is thrown inside it with the step's name.
\<close>

definition wrap :: "jsstring \<Rightarrow> jsstring + 'a \<Rightarrow> jsstring + 'a" where
  "wrap name r = (case r of Inl msg \<Rightarrow> Inl (name @ str '' failed: '' @ msg) | Inr v \<Rightarrow> Inr v)"

subsection \<open>Step 1: Get Sitemap URL\<close>

definition missing_url_msg :: jsstring where
  \<open>missing_url_msg =
     str ''sitemapUrl is missing or invalid. Provide it using {"sitemapUrl":"https://..."}''\<close>

definition get_sitemap_url :: "json option \<Rightarrow> (jsstring + jsstring) \<times> event list" where
  "get_sitemap_url payload =
     (let url = opt_prop payload (str ''sitemapUrl'')
      in (wrap (str ''Get Sitemap URL'')
            (if \<not> truthy url \<or> \<not> is_string url then Inl missing_url_msg
             else Inr (the_string url)),
          []))"

subsection \<open>Step 2: Fetch & Parse Sitemap\<close>

definition parse_sitemap :: "jsstring \<Rightarrow> jsstring + jsstring list" where
  "parse_sitemap xml =
     (let allUrls = new_Set (locUrls xml @ aTags xml)
      in if length allUrls = 0 then Inl (str ''No URLs found in sitemap.'')
         else Inr (take 10 allUrls))"

definition fetch_and_parse ::
  "(jsstring \<Rightarrow> jsstring + response) \<Rightarrow> jsstring \<Rightarrow> (jsstring + jsstring list) \<times> event list" where
  "fetch_and_parse fetch sitemapUrl =
     (wrap (str ''Fetch & Parse Sitemap'')
        (case fetch sitemapUrl of
           Inl msg \<Rightarrow> Inl msg
         | Inr response \<Rightarrow>
             if \<not> ok (resp_status response) then
               Inl (str ''Failed to fetch sitemap: '' @ show_nat (resp_status response)
                    @ str '' '' @ resp_statusText response)
             else (case resp_text response of
                     Inl msg \<Rightarrow> Inl msg
                   | Inr xml \<Rightarrow> parse_sitemap xml)),
      [SitemapGet sitemapUrl])"

subsection \<open>Step 3: Scrape Pages\<close>

record page =
  fileName :: jsstring
  content :: jsstring

text \<open>\<^verbatim>\<open>(url.split('/').filter(Boolean).pop() || 'index') + '.md'\<close>\<close>

definition pop :: "'a list \<Rightarrow> 'a option" where
  "pop xs = (if xs = [] then None else Some (last xs))"

definition segments :: "jsstring \<Rightarrow> jsstring list" where
  "segments url = filter (\<lambda>p. p \<noteq> []) (split_on 0x2F url)"

definition file_name :: "jsstring \<Rightarrow> jsstring" where
  "file_name url =
     (case pop (segments url) of
        None \<Rightarrow> str ''index''
      | Some seg \<Rightarrow> if seg = [] then str ''index'' else seg)
     @ str ''.md''"

text \<open>
  The loop over \<open>pageUrls\<close>, with the position \<open>i\<close> of the URL, the pages pushed so far
  and the events so far. An error thrown by \<^verbatim>\<open>fetch\<close> or \<^verbatim>\<open>res.json()\<close> leaves the loop.
\<close>

fun scrape_loop ::
  "(nat \<Rightarrow> jsstring \<Rightarrow> jsstring + scrape_response) \<Rightarrow> nat \<Rightarrow> jsstring list \<Rightarrow>
   page list \<Rightarrow> event list \<Rightarrow> (jsstring + page list) \<times> event list" where
  "scrape_loop fetch i [] out es = (Inr out, es)"
| "scrape_loop fetch i (url # urls) out es =
     (case fetch i url of
        Inl msg \<Rightarrow> (Inl msg, es @ [ScrapePost url])
      | Inr res \<Rightarrow>
          if \<not> ok (sr_status res) then
            scrape_loop fetch (Suc i) urls out (es @ [ScrapePost url, Warn url])
          else (case sr_markdown res of
                  Inl msg \<Rightarrow> (Inl msg, es @ [ScrapePost url])
                | Inr markdown \<Rightarrow>
                    scrape_loop fetch (Suc i) urls
                      (out @ [\<lparr>fileName = file_name url, content = markdown\<rparr>])
                      (es @ [ScrapePost url, Delay 3000])))"

definition scrape_pages ::
  "(nat \<Rightarrow> jsstring \<Rightarrow> jsstring + scrape_response) \<Rightarrow> jsstring list \<Rightarrow>
   (jsstring + page list) \<times> event list" where
  "scrape_pages fetch pageUrls =
     (case scrape_loop fetch 0 pageUrls [] [] of
        (r, es) \<Rightarrow>
          (wrap (str ''Scrape Pages'')
             (case r of
                Inl msg \<Rightarrow> Inl msg
              | Inr out \<Rightarrow>
                  if length out = 0 then Inl (str ''Scraping failed for all pages.'')
                  else Inr out),
           es))"

subsection \<open>Step 4: Zip and Upload to R2\<close>

record upload_result =
  zipName :: jsstring
  files :: "jsstring list"
  zip_size :: nat

text \<open>
  \<^verbatim>\<open>zipEntries[fileName] = ...\<close> on an object: a new key goes to the end, a key the object
  has keeps its place and takes the new value.
\<close>

fun obj_set :: "('k \<times> 'v) list \<Rightarrow> 'k \<Rightarrow> 'v \<Rightarrow> ('k \<times> 'v) list" where
  "obj_set [] k v = [(k, v)]"
| "obj_set ((k', v') # kvs) k v =
     (if k' = k then (k, v) # kvs else (k', v') # obj_set kvs k v)"

definition zipEntries :: "(jsstring \<Rightarrow> 8 word list) \<Rightarrow> page list \<Rightarrow> (jsstring \<times> 8 word list) list" where
  "zipEntries enc scrapedPages =
     foldl (\<lambda>entries p. obj_set entries (fileName p) (enc (content p))) [] scrapedPages"

text \<open>
  \<^verbatim>\<open>sitemapUrl.split('/')[2].replace(/\./g, '_')\<close>: with fewer than three pieces the index
  yields \<^verbatim>\<open>undefined\<close> and the call of \<^verbatim>\<open>replace\<close> throws a TypeError.
\<close>

definition undefined_replace_msg :: jsstring where
  "undefined_replace_msg = str ''Cannot read properties of undefined (reading 'replace')''"

definition domain :: "jsstring \<Rightarrow> jsstring + jsstring" where
  "domain sitemapUrl =
     (let parts = split_on 0x2F sitemapUrl
      in if length parts \<le> 2 then Inl undefined_replace_msg
         else Inr (replace_chars [0x2E] 0x5F (parts ! 2)))"

text \<open>\<^verbatim>\<open>new Date().toISOString().replace(/[:.]/g, '-')\<close>\<close>

definition safe_timestamp :: "jsstring \<Rightarrow> jsstring" where
  "safe_timestamp t = replace_chars [0x3A, 0x2E] 0x2D t"

definition zip_and_upload ::
  "io \<Rightarrow> jsstring \<Rightarrow> page list \<Rightarrow> (jsstring + upload_result) \<times> event list" where
  "zip_and_upload w sitemapUrl scrapedPages =
     (case zipSync w (zipEntries (strToU8 w) scrapedPages) of
        Inl msg \<Rightarrow> (wrap (str ''Zip and Upload to R2'') (Inl msg), [])
      | Inr zipData \<Rightarrow>
          (case domain sitemapUrl of
             Inl msg \<Rightarrow> (wrap (str ''Zip and Upload to R2'') (Inl msg), [])
           | Inr d \<Rightarrow>
               (let now = safe_timestamp (now_iso w);
                    name = d @ str ''_'' @ now @ str ''.zip''
                in (wrap (str ''Zip and Upload to R2'')
                      (case bucket_put w name zipData of
                         Some msg \<Rightarrow> Inl msg
                       | None \<Rightarrow>
                           Inr \<lparr>zipName = name, files = map fileName scrapedPages,
                                zip_size = length zipData\<rparr>),
                    [BucketPut name]))))"

subsection \<open>Step 5: Generate Result\<close>

record download_result =
  downloadUrl :: jsstring

definition public_prefix :: jsstring where
  "public_prefix = str ''https://pub-afa698db43a7418f8073ed229786891d.r2.dev/''"

definition generate_result :: "upload_result \<Rightarrow> (jsstring + download_result) \<times> event list" where
  "generate_result uploadResult =
     (wrap (str ''Generate Result'')
        (Inr \<lparr>downloadUrl = public_prefix @ zipName uploadResult\<rparr>),
      [])"

section \<open>Durable steps\<close>

text \<open>
  Modelled from the spec: \<^verbatim>\<open>step.do\<close> belongs to the workflow runtime
  (\<^verbatim>\<open>cloudflare:workers\<close>), which is not among the sources. The spec (4.1, 5, 9) describes it
  as a persisted log keyed by step name: a step whose name is in the log yields the logged
  result and its body is not run; otherwise the body is run, again after a failure while the
  step's retry limit allows, and the result of a successful attempt is committed to the log
  under the step's name. A failure after the last attempt leaves the step and the run.

  The log holds the results of all five steps, so they share one type.
\<close>

datatype stepval =
    VUrl jsstring
  | VUrls "jsstring list"
  | VPages "page list"
  | VUpload upload_result
  | VResult download_result

fun unUrl :: "stepval \<Rightarrow> jsstring option" where
  "unUrl (VUrl u) = Some u"
| "unUrl _ = None"

fun unUrls :: "stepval \<Rightarrow> jsstring list option" where
  "unUrls (VUrls us) = Some us"
| "unUrls _ = None"

fun unPages :: "stepval \<Rightarrow> page list option" where
  "unPages (VPages ps) = Some ps"
| "unPages _ = None"

fun unUpload :: "stepval \<Rightarrow> upload_result option" where
  "unUpload (VUpload u) = Some u"
| "unUpload _ = None"

fun unResult :: "stepval \<Rightarrow> download_result option" where
  "unResult (VResult r) = Some r"
| "unResult _ = None"

record wstate =
  step_log :: "jsstring \<rightharpoonup> stepval"
  trace :: "event list"

definition init :: wstate where
  "init = \<lparr>step_log = Map.empty, trace = []\<rparr>"

text \<open>
  The attempts of one step: attempt \<open>k\<close> runs the body against the world as it is then; after
  a failure with \<open>n\<close> retries left the next attempt follows.
\<close>

fun attempts ::
  "nat \<Rightarrow> nat \<Rightarrow> (nat \<Rightarrow> (jsstring + 'a) \<times> event list) \<Rightarrow> (jsstring + 'a) \<times> event list" where
  "attempts 0 k body = body k"
| "attempts (Suc n) k body =
     (case body k of
        (Inr v, es) \<Rightarrow> (Inr v, es)
      | (Inl e, es) \<Rightarrow> (case attempts n (Suc k) body of (r, es') \<Rightarrow> (r, es @ es')))"

definition corrupt_log_msg :: jsstring where
  "corrupt_log_msg = str ''step result of an unexpected type''"

definition step_do ::
  "nat \<Rightarrow> jsstring \<Rightarrow> ('a \<Rightarrow> stepval) \<Rightarrow> (stepval \<Rightarrow> 'a option) \<Rightarrow>
   (nat \<Rightarrow> (jsstring + 'a) \<times> event list) \<Rightarrow> wstate \<Rightarrow> (jsstring + 'a) \<times> wstate" where
  "step_do limit name enc dec body s =
     (case step_log s name of
        Some v \<Rightarrow>
          (case dec v of Some x \<Rightarrow> (Inr x, s) | None \<Rightarrow> (Inl corrupt_log_msg, s))
      | None \<Rightarrow>
          (case attempts limit 0 (\<lambda>k. case body k of (r, es) \<Rightarrow> (r, Invoke name # es)) of
             (Inl e, es) \<Rightarrow> (Inl e, s\<lparr>trace := trace s @ es\<rparr>)
           | (Inr x, es) \<Rightarrow> (Inr x, s\<lparr>step_log := (step_log s)(name \<mapsto> enc x), trace := trace s @ es\<rparr>)))"

text \<open>A run goes on with the next step after a step that yields, and ends with its error.\<close>

definition and_then ::
  "(wstate \<Rightarrow> (jsstring + 'a) \<times> wstate) \<Rightarrow> ('a \<Rightarrow> wstate \<Rightarrow> (jsstring + 'b) \<times> wstate) \<Rightarrow>
   wstate \<Rightarrow> (jsstring + 'b) \<times> wstate" where
  "and_then m f s = (case m s of (Inl e, s') \<Rightarrow> (Inl e, s') | (Inr x, s') \<Rightarrow> f x s')"

section \<open>\<^verbatim>\<open>MyWorkflow.run\<close>\<close>

text \<open>
  The world of a run: the retry limit of a step that configures none, and what the \<open>k\<close>-th
  attempt of a step finds outside. The sitemap step is configured with
  \<^verbatim>\<open>retries: { limit: 0 }\<close>.
\<close>

record world =
  default_retries :: nat
  io_at :: "nat \<Rightarrow> io"

definition step1 :: jsstring where "step1 = str ''Get Sitemap URL''"
definition step2 :: jsstring where "step2 = str ''Fetch & Parse Sitemap''"
definition step3 :: jsstring where "step3 = str ''Scrape Pages''"
definition step4 :: jsstring where "step4 = str ''Zip and Upload to R2''"
definition step5 :: jsstring where "step5 = str ''Generate Result''"

definition run :: "world \<Rightarrow> json option \<Rightarrow> wstate \<Rightarrow> (jsstring + download_result) \<times> wstate" where
  "run w payload =
     and_then (step_do (default_retries w) step1 VUrl unUrl
                 (\<lambda>k. get_sitemap_url payload)) (\<lambda>sitemapUrl.
     and_then (step_do 0 step2 VUrls unUrls
                 (\<lambda>k. fetch_and_parse (fetch_sitemap (io_at w k)) sitemapUrl)) (\<lambda>pageUrls.
     and_then (step_do (default_retries w) step3 VPages unPages
                 (\<lambda>k. scrape_pages (fetch_scrape (io_at w k)) pageUrls)) (\<lambda>scrapedPages.
     and_then (step_do (default_retries w) step4 VUpload unUpload
                 (\<lambda>k. zip_and_upload (io_at w k) sitemapUrl scrapedPages)) (\<lambda>uploadResult.
     step_do (default_retries w) step5 VResult unResult
       (\<lambda>k. generate_result uploadResult)))))"

text \<open>The step an event belongs to: the step whose body causes it.\<close>

fun event_step :: "event \<Rightarrow> jsstring" where
  "event_step (Invoke name) = name"
| "event_step (SitemapGet url) = step2"
| "event_step (ScrapePost url) = step3"
| "event_step (Warn url) = step3"
| "event_step (Delay ms) = step3"
| "event_step (BucketPut name) = step4"

text \<open>The events a run adds to the trace of the state it starts from.\<close>

definition new_events :: "wstate \<Rightarrow> wstate \<Rightarrow> event list" where
  "new_events s s' = drop (length (trace s)) (trace s')"

section \<open>The HTTP handler\<close>

text \<open>
  What the handler reads of a request: the path and the method, the \<^verbatim>\<open>id\<close> query parameter
  (\<^verbatim>\<open>url.searchParams.get('id')\<close>, \<open>None\<close> for \<^verbatim>\<open>null\<close>) and what \<^verbatim>\<open>req.json()\<close>
  gives, a rejection or the parsed body. An error caught by the handler is printed by a
  template literal, so it is kept as the text it prints.
\<close>

record request =
  req_pathname :: jsstring
  req_method :: jsstring
  req_id :: "jsstring option"
  req_json :: "jsstring + json"

text \<open>
  The binding \<^verbatim>\<open>env.MY_WORKFLOW\<close> of the workflow runtime, which is not among the sources:
  \<^verbatim>\<open>get\<close> rejects, or resolves to an instance or to a value the handler finds falsy
  (\<open>None\<close>); \<^verbatim>\<open>create\<close> rejects or resolves to the new instance; the \<^verbatim>\<open>status()\<close> of an
  instance rejects or resolves to a JSON value.
\<close>

record "instance" =
  inst_id :: jsstring
  inst_status :: "jsstring + json"

record workflow_binding =
  wf_get :: "jsstring \<Rightarrow> jsstring + instance option"
  wf_create :: "json \<Rightarrow> jsstring + instance"

text \<open>The calls the handler makes to the runtime, in order.\<close>

datatype rt_call =
    WfGet jsstring
  | WfCreate json
  | InstStatus jsstring

datatype body =
    Text jsstring
  | Json json
  | NoBody

record http_response =
  status_code :: nat
  headers :: "(jsstring \<times> jsstring) list"
  resp_body :: body

definition allow_origin :: "jsstring \<times> jsstring" where
  "allow_origin = (str ''Access-Control-Allow-Origin'', str ''*'')"

text \<open>\<^verbatim>\<open>new Response(JSON.stringify(v), { status, headers })\<close> with the two headers of a JSON answer.\<close>

definition json_response :: "nat \<Rightarrow> json \<Rightarrow> http_response" where
  "json_response code v =
     \<lparr>status_code = code,
      headers = [(str ''Content-Type'', str ''application/json''), allow_origin],
      resp_body = Json v\<rparr>"

definition error_body :: "jsstring \<Rightarrow> json" where
  "error_body msg = JObj [(str ''error'', JStr msg)]"

definition id_status_body :: "instance \<Rightarrow> json \<Rightarrow> json" where
  "id_status_body i st = JObj [(str ''id'', JStr (inst_id i)), (str ''status'', st)]"

definition status_endpoint :: "workflow_binding \<Rightarrow> request \<Rightarrow> http_response \<times> rt_call list" where
  "status_endpoint env req =
     (case req_id req of
        None \<Rightarrow>
          (\<lparr>status_code = 400, headers = [allow_origin],
            resp_body = Text (str ''Missing workflow instance ID. Use /status?id=your-instance-id'')\<rparr>,
           [])
      | Some instanceId \<Rightarrow>
          if instanceId = [] then
            (\<lparr>status_code = 400, headers = [allow_origin],
              resp_body = Text (str ''Missing workflow instance ID. Use /status?id=your-instance-id'')\<rparr>,
             [])
          else
            (case wf_get env instanceId of
               Inl err \<Rightarrow>
                 (json_response 500 (error_body (str ''Failed to get workflow status: '' @ err)),
                  [WfGet instanceId])
             | Inr None \<Rightarrow>
                 (json_response 404 (error_body (str ''Workflow instance not found'')),
                  [WfGet instanceId])
             | Inr (Some i) \<Rightarrow>
                 (case inst_status i of
                    Inl err \<Rightarrow>
                      (json_response 500 (error_body (str ''Failed to get workflow status: '' @ err)),
                       [WfGet instanceId, InstStatus (inst_id i)])
                  | Inr st \<Rightarrow>
                      (json_response 200 (id_status_body i st),
                       [WfGet instanceId, InstStatus (inst_id i)]))))"

definition process_failed :: "jsstring \<Rightarrow> http_response" where
  "process_failed err = json_response 500 (error_body (str ''Failed to process request: '' @ err))"

definition create_endpoint :: "workflow_binding \<Rightarrow> request \<Rightarrow> http_response \<times> rt_call list" where
  "create_endpoint env req =
     (case req_json req of
        Inl err \<Rightarrow> (process_failed err, [])
      | Inr payload \<Rightarrow>
          (let url = opt_prop (Some payload) (str ''sitemapUrl'')
           in if \<not> truthy url \<or> \<not> is_string url then
                (json_response 400 (error_body (str ''Missing or invalid sitemapUrl in request body.'')),
                 [])
              else
                (case wf_create env (JObj [(str ''params'', payload)]) of
                   Inl err \<Rightarrow> (process_failed err, [WfCreate (JObj [(str ''params'', payload)])])
                 | Inr i \<Rightarrow>
                     (case inst_status i of
                        Inl err \<Rightarrow>
                          (process_failed err,
                           [WfCreate (JObj [(str ''params'', payload)]), InstStatus (inst_id i)])
                      | Inr st \<Rightarrow>
                          (json_response 200 (id_status_body i st),
                           [WfCreate (JObj [(str ''params'', payload)]), InstStatus (inst_id i)])))))"

text \<open>The default export's \<^verbatim>\<open>fetch(req, env)\<close>.\<close>

definition worker_fetch :: "workflow_binding \<Rightarrow> request \<Rightarrow> http_response \<times> rt_call list" where
  "worker_fetch env req =
     (if req_pathname req = str ''/status'' \<and> req_method req = str ''GET'' then
        status_endpoint env req
      else if req_method req = str ''POST'' then
        create_endpoint env req
      else if req_method req = str ''OPTIONS'' then
        (\<lparr>status_code = 200,
          headers = [allow_origin,
                     (str ''Access-Control-Allow-Methods'', str ''GET, POST, OPTIONS''),
                     (str ''Access-Control-Allow-Headers'', str ''Content-Type'')],
          resp_body = NoBody\<rparr>,
         [])
      else (json_response 404 (error_body (str ''Not found'')), []))"

section \<open>Notions of the specification\<close>

text \<open>
  The spec's words for the file name: the path of a URL \<^verbatim>\<open>scheme://host/path?query#fragment\<close>
  is what follows the host, up to the query or the fragment; its segments are its non-empty
  pieces between slashes.
\<close>

fun after_scheme :: "jsstring \<Rightarrow> jsstring" where
  "after_scheme [] = []"
| "after_scheme (c # cs) =
     (if prefix (str ''://'') (c # cs) then drop 3 (c # cs) else after_scheme cs)"

definition url_path :: "jsstring \<Rightarrow> jsstring" where
  "url_path url =
     takeWhile (\<lambda>c. c \<noteq> 0x3F \<and> c \<noteq> 0x23) (dropWhile (\<lambda>c. c \<noteq> 0x2F) (after_scheme url))"

definition path_segments :: "jsstring \<Rightarrow> jsstring list" where
  "path_segments url = segments (url_path url)"

text \<open>
  The spec's words for the scraping step: the request for the URL at position \<open>i\<close> is answered
  when \<^verbatim>\<open>fetch\<close> resolves and, for a successful response, its JSON body can be read; the
  page it yields, if the response is successful; the successes of a list of URLs, in order.
\<close>

definition answered :: "(nat \<Rightarrow> jsstring \<Rightarrow> jsstring + scrape_response) \<Rightarrow> nat \<Rightarrow> jsstring \<Rightarrow> bool" where
  "answered fetch i url =
     (case fetch i url of
        Inl msg \<Rightarrow> False
      | Inr res \<Rightarrow> ok (sr_status res) \<longrightarrow> (case sr_markdown res of Inl msg \<Rightarrow> False | Inr md \<Rightarrow> True))"

definition scraped :: "(nat \<Rightarrow> jsstring \<Rightarrow> jsstring + scrape_response) \<Rightarrow> nat \<times> jsstring \<Rightarrow> page option" where
  "scraped fetch iu =
     (case fetch (fst iu) (snd iu) of
        Inl msg \<Rightarrow> None
      | Inr res \<Rightarrow>
          if ok (sr_status res) then
            (case sr_markdown res of
               Inl msg \<Rightarrow> None
             | Inr md \<Rightarrow> Some \<lparr>fileName = file_name (snd iu), content = md\<rparr>)
          else None)"

definition successes :: "(nat \<Rightarrow> jsstring \<Rightarrow> jsstring + scrape_response) \<Rightarrow> jsstring list \<Rightarrow> page list" where
  "successes fetch urls = List.map_filter (scraped fetch) (enumerate 0 urls)"

text \<open>
  What a request of the loop throws, if it is not answered: the message of the rejected
  \<^verbatim>\<open>fetch\<close>, or of the rejected \<^verbatim>\<open>res.json()\<close> of a successful response.
\<close>

definition rejection :: "(nat \<Rightarrow> jsstring \<Rightarrow> jsstring + scrape_response) \<Rightarrow> nat \<Rightarrow> jsstring \<Rightarrow> jsstring option" where
  "rejection fetch i url =
     (case fetch i url of
        Inl msg \<Rightarrow> Some msg
      | Inr res \<Rightarrow>
          if ok (sr_status res) then
            (case sr_markdown res of Inl msg \<Rightarrow> Some msg | Inr md \<Rightarrow> None)
          else None)"

text \<open>
  The spec's words for the archive name: the host component of a URL
  \<^verbatim>\<open>scheme://userinfo@host:port/path?query#fragment\<close> is what follows the scheme and the
  user information, up to the port, the path, the query or the fragment.
\<close>

definition url_authority :: "jsstring \<Rightarrow> jsstring" where
  "url_authority url =
     takeWhile (\<lambda>c. c \<noteq> 0x2F \<and> c \<noteq> 0x3F \<and> c \<noteq> 0x23) (after_scheme url)"

definition url_host :: "jsstring \<Rightarrow> jsstring" where
  "url_host url =
     (let a = url_authority url;
          h = (if 0x40 \<in> set a then drop 1 (dropWhile (\<lambda>c. c \<noteq> 0x40) a) else a)
      in takeWhile (\<lambda>c. c \<noteq> 0x3A) h)"

text \<open>
  Modelled from the spec: the terminal states of an instance (3, 4.1). A run that returns ends
  the instance \<open>complete\<close> with the result, a run that throws ends it \<open>errored\<close> with the
  message.
\<close>

datatype final_status =
    Complete download_result
  | Errored jsstring

definition instance_end :: "jsstring + download_result \<Rightarrow> final_status" where
  "instance_end r = (case r of Inl msg \<Rightarrow> Errored msg | Inr res \<Rightarrow> Complete res)"

text \<open>The place of a step in the sequence of the five steps; 0 for any other name.\<close>

definition step_number :: "jsstring \<Rightarrow> nat" where
  "step_number name =
     (if name = step1 then 1 else if name = step2 then 2 else if name = step3 then 3
      else if name = step4 then 4 else if name = step5 then 5 else 0)"

text \<open>
  What holds of a run from its \<open>k\<close>-th step on, started in \<open>s\<close> and ending with \<open>rs\<close>: it
  only adds events, each of a step from the \<open>k\<close>-th on that \<open>s\<close> has not committed, in the
  order of the steps; it keeps what \<open>s\<close> has committed and commits nothing for another
  name; and when it returns, the steps from the \<open>k\<close>-th on are committed.
\<close>

definition resumes_from :: "nat \<Rightarrow> wstate \<Rightarrow> (jsstring + 'a) \<times> wstate \<Rightarrow> bool" where
  "resumes_from k s rs \<longleftrightarrow>
     (\<exists>es. trace (snd rs) = trace s @ es \<and>
        (\<forall>e\<in>set es. k \<le> step_number (event_step e) \<and> step_log s (event_step e) = None) \<and>
        sorted_wrt (\<lambda>a b. step_number (event_step a) \<le> step_number (event_step b)) es) \<and>
     (\<forall>n v. step_log s n = Some v \<longrightarrow> step_log (snd rs) n = Some v) \<and>
     (\<forall>n. step_number n < k \<longrightarrow> step_log (snd rs) n = step_log s n) \<and>
     (\<forall>x. fst rs = Inr x \<longrightarrow> (\<forall>n. k \<le> step_number n \<longrightarrow> step_log (snd rs) n \<noteq> None))"

text \<open>
  A log whose entries have the type of their step's result, as every log written by a run has.
\<close>

definition well_typed :: "wstate \<Rightarrow> bool" where
  "well_typed s \<longleftrightarrow>
     (\<forall>v. step_log s step1 = Some v \<longrightarrow> unUrl v \<noteq> None) \<and>
     (\<forall>v. step_log s step2 = Some v \<longrightarrow> unUrls v \<noteq> None) \<and>
     (\<forall>v. step_log s step3 = Some v \<longrightarrow> unPages v \<noteq> None) \<and>
     (\<forall>v. step_log s step4 = Some v \<longrightarrow> unUpload v \<noteq> None) \<and>
     (\<forall>v. step_log s step5 = Some v \<longrightarrow> unResult v \<noteq> None)"

text \<open>
  Which bodies a run from its \<open>k\<close>-th step on invokes, started in \<open>s\<close> and ending with
  \<open>rs\<close>: when an event of a step occurs, the steps before it are committed at the end; and,
  for a well-typed log, the log stays well-typed and the body of a step is invoked exactly
  when \<open>s\<close> has not committed the step and the steps before it are committed at the end.
\<close>

definition replays_from :: "nat \<Rightarrow> wstate \<Rightarrow> (jsstring + 'a) \<times> wstate \<Rightarrow> bool" where
  "replays_from k s rs \<longleftrightarrow>
     (\<forall>e\<in>set (new_events s (snd rs)). \<forall>m. k \<le> step_number m \<and>
          step_number m < step_number (event_step e) \<longrightarrow> step_log (snd rs) m \<noteq> None) \<and>
     (well_typed s \<longrightarrow>
        well_typed (snd rs) \<and>
        (\<forall>n. k \<le> step_number n \<longrightarrow>
           (Invoke n \<in> set (new_events s (snd rs)) \<longleftrightarrow>
              step_log s n = None \<and>
              (\<forall>m. k \<le> step_number m \<and> step_number m < step_number n
                   \<longrightarrow> step_log (snd rs) m \<noteq> None))))"

text \<open>
  What the log of an instance with the given payload holds in every state a run can reach: the
  first step's result is the payload's URL; the archive name committed by the fourth step was
  formed from that URL and some timestamp; the fifth step's result was formed from the
  committed archive name.
\<close>

definition consistent :: "json option \<Rightarrow> wstate \<Rightarrow> bool" where
  "consistent payload s \<longleftrightarrow>
     (\<forall>v. step_log s step1 = Some v \<longrightarrow>
        (\<exists>u. v = VUrl u \<and> u \<noteq> [] \<and> opt_prop payload (str ''sitemapUrl'') = Some (JStr u))) \<and>
     (\<forall>v. step_log s step4 = Some v \<longrightarrow>
        (\<exists>u d t up. step_log s step1 = Some (VUrl u) \<and> domain u = Inr d \<and> v = VUpload up \<and>
           zipName up = d @ str ''_'' @ safe_timestamp t @ str ''.zip'')) \<and>
     (\<forall>v. step_log s step5 = Some v \<longrightarrow>
        (\<exists>up. step_log s step4 = Some (VUpload up) \<and>
           v = VResult \<lparr>downloadUrl = public_prefix @ zipName up\<rparr>))"

section \<open>Example inputs\<close>

text \<open>
  A runtime that holds the instance \<^verbatim>\<open>abc\<close>, requests to
  the two endpoints, the sitemap of the spec's scenario, a sitemap with eleven different links
  among thirteen, an extraction service that fails for one page, and a world around them.
\<close>

definition example_instance :: "instance" where
  "example_instance =
     \<lparr>inst_id = str ''abc'', inst_status = Inr (JObj [(str ''status'', JStr (str ''running''))])\<rparr>"

text \<open>
  The binding as the workflow runtime provides it, for the instances it holds. The runtime
  is not among the sources; its \<^verbatim>\<open>get\<close> is documented to resolve to the instance with the
  id and to throw when there is none.
\<close>

definition runtime_binding :: "(jsstring \<rightharpoonup> instance) \<Rightarrow> workflow_binding" where
  "runtime_binding instances =
     \<lparr>wf_get = (\<lambda>i. case instances i of
                        None \<Rightarrow> Inl (str ''Error: instance.not_found'')
                      | Some inst \<Rightarrow> Inr (Some inst)),
      wf_create = (\<lambda>p. Inr example_instance)\<rparr>"

definition example_binding :: workflow_binding where
  "example_binding = runtime_binding [str ''abc'' \<mapsto> example_instance]"

definition status_request :: "jsstring option \<Rightarrow> request" where
  "status_request i =
     \<lparr>req_pathname = str ''/status'', req_method = str ''GET'', req_id = i,
      req_json = Inl (str ''SyntaxError: Unexpected end of JSON input'')\<rparr>"

definition create_request :: "json \<Rightarrow> request" where
  "create_request payload =
     \<lparr>req_pathname = str ''/'', req_method = str ''POST'', req_id = None,
      req_json = Inr payload\<rparr>"

definition unparsable_request :: request where
  "unparsable_request =
     \<lparr>req_pathname = str ''/'', req_method = str ''POST'', req_id = None,
      req_json = Inl (str ''SyntaxError: Unexpected end of JSON input'')\<rparr>"

definition example_sitemap :: jsstring where
  "example_sitemap =
     str ''<urlset><url><loc>https://example.com/a</loc></url><url><loc>https://example.com/b</loc></url></urlset>''"

definition big_sitemap :: jsstring where
  \<open>big_sitemap = str (''<loc>/1</loc><loc>/2</loc><loc>/1</loc><loc>/3</loc><loc>/4</loc>'' @
     ''<loc>/5</loc><loc>/6</loc><loc>/7</loc><loc>/8</loc><loc>/9</loc>'' @
     ''<a href="/2">x</a><a href="/10">y</a><a  href="/11">z</a>'')\<close>

definition example_fetch :: "jsstring \<Rightarrow> jsstring + response" where
  "example_fetch url =
     (if url = str ''https://example.com/sitemap.xml'' then
        Inr \<lparr>resp_status = 200, resp_statusText = str ''OK'', resp_text = Inr example_sitemap\<rparr>
      else if url = str ''https://example.com/big.xml'' then
        Inr \<lparr>resp_status = 200, resp_statusText = str ''OK'', resp_text = Inr big_sitemap\<rparr>
      else Inr \<lparr>resp_status = 500, resp_statusText = str ''Internal Server Error'',
                resp_text = Inr []\<rparr>)"

definition example_scrape :: "nat \<Rightarrow> jsstring \<Rightarrow> jsstring + scrape_response" where
  "example_scrape i url =
     (if url = str ''https://example.com/a'' then
        Inr \<lparr>sr_status = 500, sr_markdown = Inl (str ''Unexpected token'')\<rparr>
      else Inr \<lparr>sr_status = 200, sr_markdown = Inr (str ''# B'')\<rparr>)"

definition example_io :: io where
  "example_io =
     \<lparr>fetch_sitemap = example_fetch, fetch_scrape = example_scrape,
      now_iso = str ''2025-01-02T03:04:05.678Z'',
      strToU8 = map ucast,
      zipSync = (\<lambda>entries. Inr (concat (map snd entries))),
      bucket_put = (\<lambda>name data. None)\<rparr>"

definition example_world :: world where
  "example_world = \<lparr>default_retries = 5, io_at = (\<lambda>k. example_io)\<rparr>"

definition example_payload :: "jsstring \<Rightarrow> json option" where
  "example_payload url = Some (JObj [(str ''sitemapUrl'', JStr url)])"

text \<open>
  An extraction service that scrapes the first page and whose second request is rejected, in
  a world that retries a step once; and a world whose sitemap is found under every URL.
\<close>

definition flaky_scrape :: "nat \<Rightarrow> jsstring \<Rightarrow> jsstring + scrape_response" where
  "flaky_scrape i url =
     (if url = str ''https://example.com/a'' then
        Inr \<lparr>sr_status = 200, sr_markdown = Inr (str ''# A'')\<rparr>
      else Inl (str ''fetch failed''))"

definition failing_world :: world where
  "failing_world =
     \<lparr>default_retries = 1, io_at = (\<lambda>k. example_io\<lparr>fetch_scrape := flaky_scrape\<rparr>)\<rparr>"

definition open_world :: world where
  "open_world =
     \<lparr>default_retries = 5,
      io_at = (\<lambda>k. example_io\<lparr>fetch_sitemap :=
                 (\<lambda>url. Inr \<lparr>resp_status = 200, resp_statusText = str ''OK'',
                              resp_text = Inr example_sitemap\<rparr>)\<rparr>)\<rparr>"

text \<open>
  The state in which the run of the spec's scenario ends in the world whose extraction
  service rejects the second request, and the state in which its re-execution ends once the
  service answers again.
\<close>

definition interrupted :: wstate where
  "interrupted =
     snd (run failing_world (example_payload (str ''https://example.com/sitemap.xml'')) init)"

definition completed :: wstate where
  "completed =
     snd (run example_world (example_payload (str ''https://example.com/sitemap.xml''))
            interrupted)"

section \<open>String literals\<close>

lemma str_Nil [simp]: "str [] = []"
  by (simp add: str_def)

lemma str_Cons [simp]: "str (c # cs) = of_nat (of_char c) # str cs"
  by (simp add: str_def)

section \<open>The HTTP handler: validation and status lookup\<close>

text \<open>
  Claim C10. A \<^verbatim>\<open>GET\<close> request to \<^verbatim>\<open>/status\<close> without the \<^verbatim>\<open>id\<close> query parameter is
  answered with status 400 and the text that asks for the id, and the handler makes no call
  to the workflow runtime. (The answer for an unknown id is the subject of C9.)
\<close>

theorem status_without_id:
  assumes "req_pathname req = str ''/status''" and "req_method req = str ''GET''"
    and "req_id req = None"
  shows "status_code (fst (worker_fetch env req)) = 400 \<and>
         resp_body (fst (worker_fetch env req)) =
           Text (str ''Missing workflow instance ID. Use /status?id=your-instance-id'') \<and>
         snd (worker_fetch env req) = []"
  using assms by (simp add: worker_fetch_def status_endpoint_def)

theorem status_without_id_witness:
  "req_id (status_request None) = None \<and>
   status_code (fst (worker_fetch example_binding (status_request None))) = 400 \<and>
   snd (worker_fetch example_binding (status_request None)) = []"
  using status_without_id [where req = "status_request None" and env = example_binding]
  by (simp add: status_request_def)

text \<open>
  Claim C7, as amended. A \<^verbatim>\<open>POST\<close> request whose body is JSON and has no \<^verbatim>\<open>sitemapUrl\<close>,
  or one that is not a string, is answered at once with status 400 and a body \<^verbatim>\<open>{error}\<close>.
  A \<^verbatim>\<open>POST\<close> request whose body cannot be read as JSON is answered with status 500 and a
  body \<^verbatim>\<open>{error}\<close> that begins with \<^verbatim>\<open>Failed to process request:\<close>. In both cases the handler
  makes no call to the runtime, so no instance is created and no step runs.
\<close>

theorem create_invalid_payload:
  assumes "req_method req = str ''POST''"
  shows "(req_json req = Inr payload \<and>
          (opt_prop (Some payload) (str ''sitemapUrl'') = None \<or>
           \<not> is_string (opt_prop (Some payload) (str ''sitemapUrl''))) \<longrightarrow>
            status_code (fst (worker_fetch env req)) = 400 \<and>
            resp_body (fst (worker_fetch env req)) =
              Json (JObj [(str ''error'', JStr (str ''Missing or invalid sitemapUrl in request body.''))]) \<and>
            snd (worker_fetch env req) = []) \<and>
         (req_json req = Inl err \<longrightarrow>
            status_code (fst (worker_fetch env req)) = 500 \<and>
            resp_body (fst (worker_fetch env req)) =
              Json (JObj [(str ''error'', JStr (str ''Failed to process request: '' @ err))]) \<and>
            snd (worker_fetch env req) = [])"
proof -
  have m: "req_method req \<noteq> str ''GET''"
    using assms by simp
  have 1: "status_code (fst (worker_fetch env req)) = 400 \<and>
            resp_body (fst (worker_fetch env req)) =
              Json (JObj [(str ''error'', JStr (str ''Missing or invalid sitemapUrl in request body.''))]) \<and>
            snd (worker_fetch env req) = []"
    if j: "req_json req = Inr payload"
      and u: "opt_prop (Some payload) (str ''sitemapUrl'') = None \<or>
           \<not> is_string (opt_prop (Some payload) (str ''sitemapUrl''))"
  proof -
    have "\<not> is_string (opt_prop (Some payload) (str ''sitemapUrl''))"
      using u by auto
    then show ?thesis
      using assms m j
      by (simp add: worker_fetch_def create_endpoint_def json_response_def error_body_def)
  qed
  have 2: "status_code (fst (worker_fetch env req)) = 500 \<and>
            resp_body (fst (worker_fetch env req)) =
              Json (JObj [(str ''error'', JStr (str ''Failed to process request: '' @ err))]) \<and>
            snd (worker_fetch env req) = []"
    if "req_json req = Inl err"
    using assms m that
    by (simp add: worker_fetch_def create_endpoint_def process_failed_def json_response_def
        error_body_def)
  from 1 2 show ?thesis by blast
qed

theorem create_invalid_payload_witness:
  "status_code (fst (worker_fetch example_binding (create_request (JObj [])))) = 400 \<and>
   snd (worker_fetch example_binding (create_request (JObj []))) = [] \<and>
   status_code (fst (worker_fetch example_binding
     (create_request (JObj [(str ''sitemapUrl'', JNum 42)])))) = 400 \<and>
   snd (worker_fetch example_binding
     (create_request (JObj [(str ''sitemapUrl'', JNum 42)]))) = [] \<and>
   resp_body (fst (worker_fetch example_binding unparsable_request)) =
     Json (JObj [(str ''error'',
       JStr (str ''Failed to process request: SyntaxError: Unexpected end of JSON input''))]) \<and>
   snd (worker_fetch example_binding unparsable_request) = []"
  using create_invalid_payload [where req = "create_request (JObj [])" and env = example_binding
      and payload = "JObj []"]
    create_invalid_payload [where req = "create_request (JObj [(str ''sitemapUrl'', JNum 42)])"
      and env = example_binding and payload = "JObj [(str ''sitemapUrl'', JNum 42)]"]
    create_invalid_payload [where req = unparsable_request and env = example_binding
      and err = "str ''SyntaxError: Unexpected end of JSON input''"]
  by (simp add: create_request_def unparsable_request_def)

text \<open>
  Claim C7 as stated fails: a \<^verbatim>\<open>POST\<close> request without a JSON body has no \<^verbatim>\<open>sitemapUrl\<close>,
  and it is answered with status 500, not 400.
\<close>

theorem unparsable_body_answered_500:
  "req_method unparsable_request = str ''POST'' \<and>
   req_json unparsable_request = Inl (str ''SyntaxError: Unexpected end of JSON input'') \<and>
   status_code (fst (worker_fetch example_binding unparsable_request)) = 500"
  by (simp add: unparsable_request_def worker_fetch_def create_endpoint_def process_failed_def
      json_response_def)

text \<open>
  A status request with an instance id, by what the runtime's \<^verbatim>\<open>get\<close> does: when it resolves
  to the instance and the status can be read, the answer is \<^verbatim>\<open>{id, status}\<close>; when it
  resolves to a falsy value, the answer is 404; when it rejects, or the reading of the status
  does, the answer is 500 with a body \<^verbatim>\<open>{error}\<close>.
\<close>

lemma status_by_lookup:
  assumes "req_pathname req = str ''/status''" and "req_method req = str ''GET''"
    and "req_id req = Some instanceId" and "instanceId \<noteq> []"
  shows "(wf_get env instanceId = Inr (Some i) \<and> inst_status i = Inr st \<longrightarrow>
            status_code (fst (worker_fetch env req)) = 200 \<and>
            resp_body (fst (worker_fetch env req)) =
              Json (JObj [(str ''id'', JStr (inst_id i)), (str ''status'', st)])) \<and>
         (wf_get env instanceId = Inr None \<longrightarrow>
            status_code (fst (worker_fetch env req)) = 404 \<and>
            resp_body (fst (worker_fetch env req)) =
              Json (JObj [(str ''error'', JStr (str ''Workflow instance not found''))]) \<and>
            snd (worker_fetch env req) = [WfGet instanceId]) \<and>
         (wf_get env instanceId = Inl err \<or>
          (wf_get env instanceId = Inr (Some i) \<and> inst_status i = Inl err) \<longrightarrow>
            status_code (fst (worker_fetch env req)) = 500 \<and>
            resp_body (fst (worker_fetch env req)) =
              Json (JObj [(str ''error'', JStr (str ''Failed to get workflow status: '' @ err))]))"
  using assms
  by (auto simp add: worker_fetch_def status_endpoint_def json_response_def error_body_def
      id_status_body_def)

text \<open>
  The runtime's \<^verbatim>\<open>get\<close> rejects for an id no instance has. So the handler's test for a falsy
  instance never holds there, and the rejection is caught by the inner \<^verbatim>\<open>catch\<close>.
\<close>

lemma unknown_id_never_404:
  assumes "req_pathname req = str ''/status''" and "req_method req = str ''GET''"
    and "req_id req = Some instanceId" and "instanceId \<noteq> []"
    and "instances instanceId = None"
  shows "status_code (fst (worker_fetch (runtime_binding instances) req)) = 500"
  using status_by_lookup [OF assms(1-4), of "runtime_binding instances" _ _
      "str ''Error: instance.not_found''"] assms(5)
  by (simp add: runtime_binding_def)

text \<open>
  Claim C9, on the code: a status request for the id \<^verbatim>\<open>nope\<close>, which no instance of the
  runtime has, is answered after the one lookup with status 500 and the body
  \<^verbatim>\<open>{error: "Failed to get workflow status: ..."}\<close>, not with the 404 and
  \<^verbatim>\<open>Workflow instance not found\<close> that the handler holds ready for an unknown id.
\<close>

theorem unknown_id_answered_500:
  "status_code (fst (worker_fetch example_binding (status_request (Some (str ''nope''))))) = 500 \<and>
   resp_body (fst (worker_fetch example_binding (status_request (Some (str ''nope''))))) =
     Json (JObj [(str ''error'',
       JStr (str ''Failed to get workflow status: Error: instance.not_found''))]) \<and>
   snd (worker_fetch example_binding (status_request (Some (str ''nope'')))) = [WfGet (str ''nope'')]"
  by (simp add: worker_fetch_def status_endpoint_def status_request_def example_binding_def
      runtime_binding_def json_response_def error_body_def)

section \<open>Fetch & Parse Sitemap: the links\<close>

lemma foldl_set_add:
  "foldl set_add acc xs = acc @ filter (\<lambda>x. x \<notin> set acc) (first_seen xs)"
proof (induction xs arbitrary: acc)
  case Nil
  then show ?case by simp
next
  case (Cons x xs)
  show ?case
  proof (cases "x \<in> set acc")
    case True
    have "filter (\<lambda>y. y \<noteq> x \<and> y \<notin> set acc) (first_seen xs) = filter (\<lambda>y. y \<notin> set acc) (first_seen xs)"
      using True by (intro filter_cong) auto
    with True Cons.IH [of acc] show ?thesis
      by (simp add: set_add_def)
  next
    case False
    have "filter (\<lambda>y. y \<notin> set acc \<and> y \<noteq> x) (first_seen xs) = filter (\<lambda>y. y \<noteq> x \<and> y \<notin> set acc) (first_seen xs)"
      by (intro filter_cong) auto
    with False Cons.IH [of "acc @ [x]"] show ?thesis
      by (simp add: set_add_def)
  qed
qed

lemma new_Set_first_seen: "new_Set xs = first_seen xs"
  by (simp add: new_Set_def foldl_set_add)

lemma set_first_seen: "set (first_seen xs) = set xs"
  by (induction xs) auto

lemma distinct_first_seen: "distinct (first_seen xs)"
  by (induction xs) (auto simp: set_first_seen)

lemma first_index_Cons:
  "first_index (x # xs) y = (if y = x then 0 else Suc (first_index xs y))"
  by (simp add: first_index_def)

lemma sorted_first_seen:
  "sorted_wrt (\<lambda>a b. first_index xs a < first_index xs b) (first_seen xs)"
proof (induction xs)
  case Nil
  then show ?case by simp
next
  case (Cons x xs)
  have "sorted_wrt (\<lambda>a b. first_index xs a < first_index xs b) (filter (\<lambda>y. y \<noteq> x) (first_seen xs))"
    using Cons.IH by (rule sorted_wrt_filter)
  then have "sorted_wrt (\<lambda>a b. first_index (x # xs) a < first_index (x # xs) b)
               (filter (\<lambda>y. y \<noteq> x) (first_seen xs))"
    by (rule sorted_wrt_mono_rel [rotated]) (simp add: first_index_Cons)
  then show ?case
    by (simp add: first_index_Cons)
qed

lemma take_first_seen:
  assumes r_def: "r = take n (first_seen xs)"
  shows "distinct r" and "set r \<subseteq> set xs" and "length r = min n (card (set xs))"
    and "sorted_wrt (\<lambda>a b. first_index xs a < first_index xs b) r"
    and "\<forall>x\<in>set xs - set r. \<forall>y\<in>set r. first_index xs y < first_index xs x"
proof -
  show "distinct r"
    by (simp add: r_def distinct_first_seen)
  show "set r \<subseteq> set xs"
    using set_take_subset [of n "first_seen xs"] by (simp add: r_def set_first_seen)
  have "length (first_seen xs) = card (set xs)"
    using distinct_card [OF distinct_first_seen, of xs] by (simp add: set_first_seen)
  then show "length r = min n (card (set xs))"
    by (simp add: r_def min.commute)
  have s: "sorted_wrt (\<lambda>a b. first_index xs a < first_index xs b) (r @ drop n (first_seen xs))"
    using sorted_first_seen [of xs] by (simp add: r_def)
  then show "sorted_wrt (\<lambda>a b. first_index xs a < first_index xs b) r"
    by (simp add: sorted_wrt_append)
  have "set xs = set r \<union> set (drop n (first_seen xs))"
    using set_append [of r "drop n (first_seen xs)"] by (simp add: r_def set_first_seen)
  then show "\<forall>x\<in>set xs - set r. \<forall>y\<in>set r. first_index xs y < first_index xs x"
    using s by (auto simp: sorted_wrt_append)
qed

text \<open>
  Claim C2. For a successful response with body \<open>xml\<close>, the step works on the \<^verbatim>\<open>loc\<close>
  captures followed by the \<^verbatim>\<open>href\<close> captures. With no capture at all it fails with
  \<^verbatim>\<open>No URLs found in sitemap.\<close>; otherwise it returns the first ten entries of that list with
  duplicates removed in first-seen order: the result has no duplicates, holds only captured
  values, has ten entries or as many as there are different captures if these are fewer, is
  ordered by first occurrence, and every capture left out is first seen after all those
  returned.
\<close>

theorem sitemap_links:
  assumes "fetch sitemapUrl = Inr response" and "ok (resp_status response)"
    and "resp_text response = Inr xml"
  shows "(locUrls xml @ aTags xml = [] \<longrightarrow>
            fst (fetch_and_parse fetch sitemapUrl) =
              Inl (str ''Fetch & Parse Sitemap failed: No URLs found in sitemap.'')) \<and>
         (locUrls xml @ aTags xml \<noteq> [] \<longrightarrow>
            (\<exists>links. fst (fetch_and_parse fetch sitemapUrl) = Inr links \<and>
               links = take 10 (first_seen (locUrls xml @ aTags xml)) \<and>
               distinct links \<and>
               set links \<subseteq> set (locUrls xml @ aTags xml) \<and>
               length links = min 10 (card (set (locUrls xml @ aTags xml))) \<and>
               sorted_wrt (\<lambda>a b. first_index (locUrls xml @ aTags xml) a
                                 < first_index (locUrls xml @ aTags xml) b) links \<and>
               (\<forall>x\<in>set (locUrls xml @ aTags xml) - set links. \<forall>y\<in>set links.
                  first_index (locUrls xml @ aTags xml) y
                  < first_index (locUrls xml @ aTags xml) x)))"
proof -
  let ?all = "locUrls xml @ aTags xml"
  have empty: "first_seen ?all = [] \<longleftrightarrow> ?all = []"
    using set_first_seen [of ?all] by (metis set_empty)
  have res: "fst (fetch_and_parse fetch sitemapUrl) =
      (if ?all = [] then Inl (str ''Fetch & Parse Sitemap failed: No URLs found in sitemap.'')
       else Inr (take 10 (first_seen ?all)))"
    using assms empty
    by (simp add: fetch_and_parse_def parse_sitemap_def wrap_def new_Set_first_seen
        del: append_is_Nil_conv)
  show ?thesis
    using res take_first_seen [where n = 10 and xs = ?all, OF refl] by (simp del: append_is_Nil_conv)
qed

lemma example_locUrls:
  "locUrls big_sitemap =
     [str ''/1'', str ''/2'', str ''/1'', str ''/3'', str ''/4'', str ''/5'', str ''/6'',
      str ''/7'', str ''/8'', str ''/9'']"
  by (simp add: big_sitemap_def locUrls_def loc_match_def is_line_terminator_def)

lemma example_aTags: "aTags big_sitemap = [str ''/2'', str ''/10'', str ''/11'']"
  by (simp add: big_sitemap_def aTags_def a_match_def is_line_terminator_def
      is_white_space_def)

theorem sitemap_links_witness:
  "ok 200 \<and>
   fst (fetch_and_parse example_fetch (str ''https://example.com/big.xml'')) =
     Inr [str ''/1'', str ''/2'', str ''/3'', str ''/4'', str ''/5'', str ''/6'', str ''/7'',
          str ''/8'', str ''/9'', str ''/10'']"
  using sitemap_links [where fetch = example_fetch
      and sitemapUrl = "str ''https://example.com/big.xml''"
      and response = "\<lparr>resp_status = 200, resp_statusText = str ''OK'',
                        resp_text = Inr big_sitemap\<rparr>"
      and xml = big_sitemap]
  by (simp add: example_fetch_def ok_def example_locUrls example_aTags)

section \<open>Scrape Pages: partial failure and the delay\<close>

lemma scrape_loop_answered:
  "\<forall>j<length urls. answered fetch (i + j) (urls ! j) \<Longrightarrow>
   fst (scrape_loop fetch i urls out es) =
     Inr (out @ List.map_filter (scraped fetch) (enumerate i urls))"
proof (induction urls arbitrary: i out es)
  case Nil
  then show ?case by (simp add: List.map_filter_simps)
next
  case (Cons url urls)
  have here: "answered fetch i url"
    using Cons.prems by force
  have rest: "\<forall>j<length urls. answered fetch (Suc i + j) (urls ! j)"
    using Cons.prems by force
  note IH = Cons.IH [OF rest]
  from here obtain res where res: "fetch i url = Inr res"
    by (auto simp: answered_def split: sum.splits)
  show ?case
  proof (cases "ok (sr_status res)")
    case False
    then show ?thesis
      using res IH by (simp add: List.map_filter_simps scraped_def)
  next
    case True
    with here res obtain md where md: "sr_markdown res = Inr md"
      by (auto simp: answered_def split: sum.splits)
    show ?thesis
      using res True md IH by (simp add: List.map_filter_simps scraped_def)
  qed
qed

lemma answered_rejection: "answered fetch i url \<longleftrightarrow> rejection fetch i url = None"
  by (auto simp: answered_def rejection_def split: sum.splits)

lemma scrape_loop_rejected:
  "i < length urls \<Longrightarrow> \<forall>j<i. answered fetch (k + j) (urls ! j) \<Longrightarrow>
   rejection fetch (k + i) (urls ! i) = Some msg \<Longrightarrow>
   fst (scrape_loop fetch k urls out es) = Inl msg"
proof (induction urls arbitrary: i k out es)
  case Nil
  then show ?case by simp
next
  case (Cons url urls)
  show ?case
  proof (cases i)
    case 0
    with Cons.prems(3) show ?thesis
      by (auto simp: rejection_def split: sum.splits if_splits)
  next
    case (Suc i')
    from Cons.prems(2) Suc have here: "answered fetch k url"
      by force
    have rest: "\<forall>j<i'. answered fetch (Suc k + j) (urls ! j)"
    proof (intro allI impI)
      fix j assume "j < i'"
      with Suc Cons.prems(2) [rule_format, of "Suc j"] show "answered fetch (Suc k + j) (urls ! j)"
        by simp
    qed
    from Cons.prems(1,3) Suc have i': "i' < length urls"
      and rej: "rejection fetch (Suc k + i') (urls ! i') = Some msg"
      by simp_all
    note IH = Cons.IH [OF i' rest rej]
    from here obtain res where res: "fetch k url = Inr res"
      by (auto simp: answered_def split: sum.splits)
    show ?thesis
    proof (cases "ok (sr_status res)")
      case False
      with res IH show ?thesis by simp
    next
      case True
      with here res obtain md where "sr_markdown res = Inr md"
        by (auto simp: answered_def split: sum.splits)
      with res True IH show ?thesis by simp
    qed
  qed
qed

text \<open>
  Claim C3, as amended. When every request of the loop is answered, the step fails with
  \<^verbatim>\<open>Scrape Pages failed: Scraping failed for all pages.\<close> if and only if no URL of the list
  succeeded; and if some URL succeeded, it returns exactly the pages of the successes, in
  order, the URLs with a non-successful response being skipped. When a request is not
  answered, because \<^verbatim>\<open>fetch\<close> rejects or the body of a successful response cannot be read,
  the step fails with that error, wrapped with the step's name, whatever was scraped before.
\<close>

theorem scrape_pages_all_failed:
  "((\<forall>i<length pageUrls. answered fetch i (pageUrls ! i)) \<longrightarrow>
      (fst (scrape_pages fetch pageUrls) =
            Inl (str ''Scrape Pages failed: Scraping failed for all pages.'')
          \<longleftrightarrow> successes fetch pageUrls = []) \<and>
      (successes fetch pageUrls \<noteq> [] \<longrightarrow>
            fst (scrape_pages fetch pageUrls) = Inr (successes fetch pageUrls))) \<and>
   (i < length pageUrls \<and> (\<forall>j<i. answered fetch j (pageUrls ! j)) \<and>
    rejection fetch i (pageUrls ! i) = Some msg \<longrightarrow>
      fst (scrape_pages fetch pageUrls) = Inl (str ''Scrape Pages failed: '' @ msg))"
proof -
  have 1: "(fst (scrape_pages fetch pageUrls) =
            Inl (str ''Scrape Pages failed: Scraping failed for all pages.'')
          \<longleftrightarrow> successes fetch pageUrls = []) \<and>
      (successes fetch pageUrls \<noteq> [] \<longrightarrow>
            fst (scrape_pages fetch pageUrls) = Inr (successes fetch pageUrls))"
    if a: "\<forall>i<length pageUrls. answered fetch i (pageUrls ! i)"
  proof -
    have "fst (scrape_loop fetch 0 pageUrls [] []) = Inr (successes fetch pageUrls)"
      using scrape_loop_answered [of pageUrls fetch 0 "[]" "[]"] a
      by (simp add: successes_def)
    then show ?thesis
      by (cases "scrape_loop fetch 0 pageUrls [] []")
        (simp add: scrape_pages_def wrap_def)
  qed
  have 2: "fst (scrape_pages fetch pageUrls) = Inl (str ''Scrape Pages failed: '' @ msg)"
    if "i < length pageUrls" and "\<forall>j<i. answered fetch j (pageUrls ! j)"
      and "rejection fetch i (pageUrls ! i) = Some msg"
  proof -
    have "fst (scrape_loop fetch 0 pageUrls [] []) = Inl msg"
      using scrape_loop_rejected [of i pageUrls fetch 0 msg "[]" "[]"] that by simp
    then show ?thesis
      by (cases "scrape_loop fetch 0 pageUrls [] []")
        (simp add: scrape_pages_def wrap_def)
  qed
  from 1 2 show ?thesis by blast
qed

theorem scrape_pages_all_failed_witness:
  "answered example_scrape 0 (str ''https://example.com/a'') \<and>
   answered example_scrape 1 (str ''https://example.com/b'') \<and>
   fst (scrape_pages example_scrape [str ''https://example.com/a'', str ''https://example.com/b''])
     = Inr [\<lparr>fileName = str ''b.md'', content = str ''# B''\<rparr>] \<and>
   answered flaky_scrape 0 (str ''https://example.com/a'') \<and>
   rejection flaky_scrape 1 (str ''https://example.com/b'') = Some (str ''fetch failed'') \<and>
   fst (scrape_pages flaky_scrape [str ''https://example.com/a'', str ''https://example.com/b''])
     = Inl (str ''Scrape Pages failed: fetch failed'')"
proof -
  let ?urls = "[str ''https://example.com/a'', str ''https://example.com/b'']"
  have a: "answered example_scrape 0 (str ''https://example.com/a'')"
    by (simp add: example_scrape_def answered_def ok_def)
  have b: "answered example_scrape 1 (str ''https://example.com/b'')"
    by (simp add: example_scrape_def answered_def ok_def)
  have all: "\<forall>i<length ?urls. answered example_scrape i (?urls ! i)"
    using a b by (simp add: All_less_Suc)
  have s: "successes example_scrape ?urls = [\<lparr>fileName = str ''b.md'', content = str ''# B''\<rparr>]"
    by (simp add: example_scrape_def ok_def successes_def scraped_def
      List.map_filter_simps file_name_def segments_def pop_def)
  have fa: "answered flaky_scrape 0 (str ''https://example.com/a'')"
    by (simp add: flaky_scrape_def answered_def ok_def)
  have fb: "rejection flaky_scrape 1 (str ''https://example.com/b'') = Some (str ''fetch failed'')"
    by (simp add: flaky_scrape_def rejection_def)
  have before: "\<forall>j<1. answered flaky_scrape j (?urls ! j)"
    using fa by simp
  from scrape_pages_all_failed [of ?urls example_scrape] all s
  have 1: "fst (scrape_pages example_scrape ?urls) = Inr [\<lparr>fileName = str ''b.md'', content = str ''# B''\<rparr>]"
    by simp
  from scrape_pages_all_failed [of ?urls flaky_scrape 1 "str ''fetch failed''"] before fb
  have 2: "fst (scrape_pages flaky_scrape ?urls) = Inl (str ''Scrape Pages failed: fetch failed'')"
    by simp
  from a b 1 fa fb 2 show ?thesis by blast
qed

text \<open>
  Claim C3 as stated fails: the first of two pages is scraped and the request for the second
  is rejected, so one URL succeeds and one fails, and the step does not return the success
  but fails with the rejection; and when the only request is rejected, no page is scraped
  and the error is not the one for all pages failed.
\<close>

theorem scrape_rejection_loses_successes:
  "successes flaky_scrape [str ''https://example.com/a'', str ''https://example.com/b''] =
     [\<lparr>fileName = str ''a.md'', content = str ''# A''\<rparr>] \<and>
   fst (scrape_pages flaky_scrape [str ''https://example.com/a'', str ''https://example.com/b''])
     = Inl (str ''Scrape Pages failed: fetch failed'') \<and>
   successes (\<lambda>i url. Inl (str ''fetch failed'')) [str ''https://example.com/a''] = [] \<and>
   fst (scrape_pages (\<lambda>i url. Inl (str ''fetch failed'')) [str ''https://example.com/a''])
     = Inl (str ''Scrape Pages failed: fetch failed'')"
  by (simp add: flaky_scrape_def ok_def successes_def scraped_def scrape_pages_def wrap_def
      List.map_filter_simps file_name_def segments_def pop_def)

text \<open>
  Claim C4, on the code: of two URLs the first is answered with status 500, the second with
  status 200. The skipped first request is followed by the warning and then at once by the
  second request; the only delay of 3000 ms comes after the successful second page.
\<close>

theorem skipped_page_without_delay:
  "snd (scrape_pages
         (\<lambda>i url. if i = 0 then Inr \<lparr>sr_status = 500, sr_markdown = Inl []\<rparr>
                   else Inr \<lparr>sr_status = 200, sr_markdown = Inr (str ''# B'')\<rparr>)
         [str ''https://example.com/a'', str ''https://example.com/b''])
   = [ScrapePost (str ''https://example.com/a''), Warn (str ''https://example.com/a''),
      ScrapePost (str ''https://example.com/b''), Delay 3000]"
  by (simp add: scrape_pages_def ok_def)

section \<open>Durable steps: what a run does to the log and the trace\<close>

lemma step_names_distinct: "distinct [step1, step2, step3, step4, step5]"
  by (simp add: step1_def step2_def step3_def step4_def step5_def)

lemma step_number_steps:
  "step_number step1 = 1" "step_number step2 = 2" "step_number step3 = 3"
  "step_number step4 = 4" "step_number step5 = 5"
  using step_names_distinct by (auto simp: step_number_def)

lemma step_number_le: "step_number n \<le> 5"
  by (simp add: step_number_def)

lemma step_number_inj: "step_number a = step_number b \<Longrightarrow> 0 < step_number a \<Longrightarrow> a = b"
  by (simp add: step_number_def split: if_splits)

lemma attempts_result:
  "attempts n k body = (r, es) \<Longrightarrow>
   (\<exists>j. k \<le> j \<and> j \<le> k + n \<and> fst (body j) = r) \<and>
   (\<forall>e\<in>set es. \<exists>j. k \<le> j \<and> j \<le> k + n \<and> e \<in> set (snd (body j)))"
proof (induction n arbitrary: k r es)
  case 0
  then show ?case by auto
next
  case (Suc n)
  obtain r0 es0 where b: "body k = (r0, es0)"
    by (cases "body k")
  show ?case
  proof (cases r0)
    case (Inr v)
    with b Suc.prems show ?thesis by auto
  next
    case (Inl e)
    obtain r1 es1 where a: "attempts n (Suc k) body = (r1, es1)"
      by (cases "attempts n (Suc k) body")
    from Suc.IH [OF a]
    have 1: "\<exists>j. k \<le> j \<and> j \<le> k + Suc n \<and> fst (body j) = r1"
      and 2: "\<forall>e\<in>set es1. \<exists>j. k \<le> j \<and> j \<le> k + Suc n \<and> e \<in> set (snd (body j))"
      by (auto intro: Suc_leD)
    have 3: "\<forall>e\<in>set es0. \<exists>j. k \<le> j \<and> j \<le> k + Suc n \<and> e \<in> set (snd (body j))"
      using b by (intro ballI exI [of _ k]) simp
    from Suc.prems b Inl a have "r = r1" "es = es0 @ es1"
      by auto
    with 1 2 3 show ?thesis by auto
  qed
qed

lemma attempts_first: "fst (body k) = Inr x \<Longrightarrow> attempts n k body = body k"
  by (cases n; cases "body k") auto

lemma step_do_hit:
  "step_log s name = Some v \<Longrightarrow>
   step_do limit name enc dec body s =
     ((case dec v of Some x \<Rightarrow> Inr x | None \<Rightarrow> Inl corrupt_log_msg), s)"
  by (simp add: step_do_def split: option.splits)

lemma step_do_miss:
  assumes "step_log s name = None" and "step_do limit name enc dec body s = (r, s')"
  shows "\<exists>es. trace s' = trace s @ es \<and>
           (\<forall>e\<in>set es. e = Invoke name \<or> (\<exists>j\<le>limit. e \<in> set (snd (body j)))) \<and>
           (\<exists>j\<le>limit. fst (body j) = r) \<and>
           step_log s' = (case r of Inl e \<Rightarrow> step_log s | Inr x \<Rightarrow> (step_log s)(name \<mapsto> enc x))"
proof -
  let ?b = "\<lambda>k. case body k of (r, es) \<Rightarrow> (r, Invoke name # es)"
  obtain r0 es where a: "attempts limit 0 ?b = (r0, es)"
    by (cases "attempts limit 0 ?b")
  have fst_b: "fst (?b j) = fst (body j)" for j
    by (simp split: prod.splits)
  have snd_b: "snd (?b j) = Invoke name # snd (body j)" for j
    by (simp split: prod.splits)
  from attempts_result [OF a]
  have "\<exists>j. j \<le> limit \<and> fst (?b j) = r0"
    and "\<forall>e\<in>set es. \<exists>j. j \<le> limit \<and> e \<in> set (snd (?b j))"
    by simp_all
  then have 1: "\<exists>j\<le>limit. fst (body j) = r0"
    and 2: "\<forall>e\<in>set es. e = Invoke name \<or> (\<exists>j\<le>limit. e \<in> set (snd (body j)))"
    unfolding fst_b snd_b by auto
  show ?thesis
  proof (cases r0)
    case (Inl e)
    with assms a have "r = Inl e" "s' = s\<lparr>trace := trace s @ es\<rparr>"
      by (auto simp: step_do_def)
    with 1 2 Inl show ?thesis by auto
  next
    case (Inr x)
    with assms a have "r = Inr x"
      "s' = s\<lparr>step_log := (step_log s)(name \<mapsto> enc x), trace := trace s @ es\<rparr>"
      by (auto simp: step_do_def)
    with 1 2 Inr show ?thesis by auto
  qed
qed

lemma sorted_wrt_const:
  "\<forall>x\<in>set xs. f x = (c::nat) \<Longrightarrow> sorted_wrt (\<lambda>a b. f a \<le> f b) xs"
  by (induction xs) auto

lemma resumes_from_done: "resumes_from 6 s (Inr x, s)"
  using step_number_le by (auto simp: resumes_from_def intro: le_trans [of 6 _ 5, elim_format])

lemma resumes_from_fail:
  assumes "trace s' = trace s @ es" and "\<forall>e\<in>set es. event_step e = name"
    and "step_number name = k" and "step_log s name = None" and "step_log s' = step_log s"
  shows "resumes_from k s (Inl e, s')"
  unfolding resumes_from_def using assms
  by (auto intro!: exI [of _ es] sorted_wrt_const [of _ _ k])

lemma resumes_from_weaken:
  assumes r: "resumes_from (Suc k) s rs" and k: "step_number name = k" "0 < k"
    and c: "\<And>x. fst rs = Inr x \<Longrightarrow> step_log (snd rs) name \<noteq> None"
  shows "resumes_from k s rs"
proof -
  from r obtain es where
    tr: "trace (snd rs) = trace s @ es"
    and ev: "\<forall>e\<in>set es. Suc k \<le> step_number (event_step e) \<and> step_log s (event_step e) = None"
    and so: "sorted_wrt (\<lambda>a b. step_number (event_step a) \<le> step_number (event_step b)) es"
    and keep: "\<forall>n v. step_log s n = Some v \<longrightarrow> step_log (snd rs) n = Some v"
    and frame: "\<forall>n. step_number n < Suc k \<longrightarrow> step_log (snd rs) n = step_log s n"
    and fin: "\<forall>y. fst rs = Inr y \<longrightarrow>
                (\<forall>n. Suc k \<le> step_number n \<longrightarrow> step_log (snd rs) n \<noteq> None)"
    unfolding resumes_from_def by blast
  from ev have ev': "\<forall>e\<in>set es. k \<le> step_number (event_step e) \<and> step_log s (event_step e) = None"
    by (auto dest: Suc_leD)
  from frame have frame': "\<forall>n. step_number n < k \<longrightarrow> step_log (snd rs) n = step_log s n"
    by auto
  have fin': "\<forall>y. fst rs = Inr y \<longrightarrow> (\<forall>n. k \<le> step_number n \<longrightarrow> step_log (snd rs) n \<noteq> None)"
  proof (intro allI impI)
    fix y n assume y: "fst rs = Inr y" and n: "k \<le> step_number n"
    show "step_log (snd rs) n \<noteq> None"
    proof (cases "step_number n = k")
      case True
      with k step_number_inj [of n name] have "n = name" by simp
      with c [OF y] show ?thesis by simp
    next
      case False
      with n fin y show ?thesis by auto
    qed
  qed
  show ?thesis
    unfolding resumes_from_def using tr ev' so keep frame' fin' by blast
qed

lemma and_then_resumes:
  assumes k: "step_number name = k" "0 < k" and k': "k' = Suc k"
    and body: "\<And>j e. e \<in> set (snd (body j)) \<Longrightarrow> event_step e = name"
    and f': "\<And>x s1. resumes_from k' s1 (f x s1)"
  shows "resumes_from k s (and_then (step_do limit name enc dec body) f s)"
proof (cases "step_log s name")
  case (Some v)
  have f: "resumes_from (Suc k) s1 (f x s1)" for x s1
    using f' [of s1 x] k' by simp
  note hit = step_do_hit [OF Some, of limit enc dec body]
  show ?thesis
  proof (cases "dec v")
    case None
    with hit have "and_then (step_do limit name enc dec body) f s = (Inl corrupt_log_msg, s)"
      by (simp add: and_then_def)
    then show ?thesis
      by (simp add: resumes_from_def)
  next
    case (Some x)
    with hit have eq: "and_then (step_do limit name enc dec body) f s = f x s"
      by (simp add: and_then_def)
    have "step_log (snd (f x s)) name \<noteq> None"
      using f [where x = x and ?s1.0 = s] \<open>step_log s name = Some v\<close>
      by (auto simp: resumes_from_def)
    with f [where x = x and ?s1.0 = s] k show ?thesis
      unfolding eq by (rule resumes_from_weaken [where name = name])
  qed
next
  case None
  have f: "resumes_from (Suc k) s1 (f x s1)" for x s1
    using f' [of s1 x] k' by simp
  obtain r s1 where sd: "step_do limit name enc dec body s = (r, s1)"
    by (cases "step_do limit name enc dec body s")
  from step_do_miss [OF None sd] obtain es1 where
    tr1: "trace s1 = trace s @ es1"
    and ev1: "\<forall>e\<in>set es1. e = Invoke name \<or> (\<exists>j\<le>limit. e \<in> set (snd (body j)))"
    and log1: "step_log s1 = (case r of Inl e \<Rightarrow> step_log s | Inr x \<Rightarrow> (step_log s)(name \<mapsto> enc x))"
    by blast
  from ev1 body have ev1': "\<forall>e\<in>set es1. event_step e = name"
    by auto
  show ?thesis
  proof (cases r)
    case (Inl e)
    with sd have "and_then (step_do limit name enc dec body) f s = (Inl e, s1)"
      by (simp add: and_then_def)
    moreover have "step_log s1 = step_log s"
      using log1 Inl by simp
    then have "resumes_from k s (Inl e, s1)"
      using tr1 ev1' k(1) None by (intro resumes_from_fail [where es = es1 and name = name])
    ultimately show ?thesis by simp
  next
    case (Inr x)
    with sd have eq: "and_then (step_do limit name enc dec body) f s = f x s1"
      by (simp add: and_then_def)
    from log1 Inr have log1': "step_log s1 = (step_log s)(name \<mapsto> enc x)"
      by simp
    from f [where x = x and ?s1.0 = s1] obtain es2 where
      tr2: "trace (snd (f x s1)) = trace s1 @ es2"
      and ev2: "\<forall>e\<in>set es2. Suc k \<le> step_number (event_step e) \<and> step_log s1 (event_step e) = None"
      and so2: "sorted_wrt (\<lambda>a b. step_number (event_step a) \<le> step_number (event_step b)) es2"
      and keep2: "\<forall>n v. step_log s1 n = Some v \<longrightarrow> step_log (snd (f x s1)) n = Some v"
      and frame2: "\<forall>n. step_number n < Suc k \<longrightarrow> step_log (snd (f x s1)) n = step_log s1 n"
      and done2: "\<forall>y. fst (f x s1) = Inr y \<longrightarrow>
                   (\<forall>n. Suc k \<le> step_number n \<longrightarrow> step_log (snd (f x s1)) n \<noteq> None)"
      unfolding resumes_from_def by blast
    have A: "trace (snd (f x s1)) = trace s @ (es1 @ es2)"
      using tr1 tr2 by simp
    have B: "\<forall>e\<in>set (es1 @ es2). k \<le> step_number (event_step e) \<and> step_log s (event_step e) = None"
    proof
      fix e assume "e \<in> set (es1 @ es2)"
      then consider "e \<in> set es1" | "e \<in> set es2" by auto
      then show "k \<le> step_number (event_step e) \<and> step_log s (event_step e) = None"
      proof cases
        case 1
        with ev1' k None show ?thesis by auto
      next
        case 2
        with ev2 have "Suc k \<le> step_number (event_step e)" "step_log s1 (event_step e) = None"
          by auto
        then show ?thesis
          using log1' by (auto split: if_splits)
      qed
    qed
    have C: "sorted_wrt (\<lambda>a b. step_number (event_step a) \<le> step_number (event_step b)) (es1 @ es2)"
      using so2 ev1' ev2 k(1) sorted_wrt_const [of es1 "\<lambda>e. step_number (event_step e)" k]
      by (auto simp: sorted_wrt_append)
    have D: "\<forall>n v. step_log s n = Some v \<longrightarrow> step_log (snd (f x s1)) n = Some v"
    proof (intro allI impI)
      fix n v assume n: "step_log s n = Some v"
      with None have "n \<noteq> name" by auto
      with n log1' have "step_log s1 n = Some v" by simp
      with keep2 show "step_log (snd (f x s1)) n = Some v" by blast
    qed
    have E: "\<forall>n. step_number n < k \<longrightarrow> step_log (snd (f x s1)) n = step_log s n"
    proof (intro allI impI)
      fix n assume n: "step_number n < k"
      with k(1) have "n \<noteq> name" by auto
      with log1' have "step_log s1 n = step_log s n" by simp
      with frame2 n show "step_log (snd (f x s1)) n = step_log s n" by simp
    qed
    have F: "\<forall>y. fst (f x s1) = Inr y \<longrightarrow>
               (\<forall>n. k \<le> step_number n \<longrightarrow> step_log (snd (f x s1)) n \<noteq> None)"
    proof (intro allI impI)
      fix y n assume y: "fst (f x s1) = Inr y" and n: "k \<le> step_number n"
      show "step_log (snd (f x s1)) n \<noteq> None"
      proof (cases "step_number n = k")
        case True
        with k step_number_inj [of n name] have "n = name" by simp
        moreover from frame2 k(1) have "step_log (snd (f x s1)) name = step_log s1 name"
          by simp
        ultimately show ?thesis using log1' by simp
      next
        case False
        with n done2 y show ?thesis by auto
      qed
    qed
    show ?thesis
      unfolding eq resumes_from_def using A B C D E F by blast
  qed
qed

lemma and_then_return: "and_then m (\<lambda>x s. (Inr x, s)) s = m s"
  by (cases "m s" rule: prod.exhaust; cases "fst (m s)") (auto simp: and_then_def)

lemma scrape_loop_events:
  "set (snd (scrape_loop fetch i urls out es)) \<subseteq> set es \<union> {e. event_step e = step3}"
proof (induction urls arbitrary: i out es)
  case Nil
  then show ?case by simp
next
  case (Cons url urls)
  show ?case
  proof (cases "fetch i url")
    case (Inl msg)
    then show ?thesis by auto
  next
    case (Inr res)
    show ?thesis
    proof (cases "ok (sr_status res)")
      case False
      with Inr Cons.IH [of "Suc i" out "es @ [ScrapePost url, Warn url]"] show ?thesis
        by auto
    next
      case True
      show ?thesis
      proof (cases "sr_markdown res")
        case (Inl msg)
        with Inr True show ?thesis by auto
      next
        case md: (Inr markdown)
        with Inr True
          Cons.IH [of "Suc i" "out @ [\<lparr>fileName = file_name url, content = markdown\<rparr>]"
            "es @ [ScrapePost url, Delay 3000]"]
        show ?thesis by auto
      qed
    qed
  qed
qed

lemma scrape_pages_events: "e \<in> set (snd (scrape_pages fetch urls)) \<Longrightarrow> event_step e = step3"
  using scrape_loop_events [of fetch 0 urls "[]" "[]"]
  by (auto simp: scrape_pages_def split: prod.splits)

lemma zip_and_upload_events: "e \<in> set (snd (zip_and_upload w u ps)) \<Longrightarrow> event_step e = step4"
  by (auto simp: zip_and_upload_def Let_def split: sum.splits)

lemma get_sitemap_url_events: "snd (get_sitemap_url payload) = []"
  by (simp add: get_sitemap_url_def Let_def)

lemma fetch_and_parse_events: "snd (fetch_and_parse fetch u) = [SitemapGet u]"
  by (simp add: fetch_and_parse_def)

lemma generate_result_events: "snd (generate_result up) = []"
  by (simp add: generate_result_def)

lemma run_resumes: "resumes_from 1 s (run w payload s)"
proof -
  have 5: "resumes_from 5 s1 (step_do limit step5 VResult unResult (\<lambda>k. generate_result up) s1)"
    for s1 limit up
    using and_then_resumes [where name = step5 and k = 5 and k' = 6
        and body = "\<lambda>k. generate_result up" and f = "\<lambda>x s. (Inr x, s)"
        and s = s1 and limit = limit and enc = VResult and dec = unResult]
    by (simp add: and_then_return step_number_steps generate_result_events resumes_from_done)
  have 4: "resumes_from 4 s1
      (and_then (step_do limit step4 VUpload unUpload (\<lambda>k. zip_and_upload (io_at w k) u ps))
         (\<lambda>up. step_do limit5 step5 VResult unResult (\<lambda>k. generate_result up)) s1)"
    for s1 limit limit5 u ps
    by (rule and_then_resumes [where k = 4 and k' = 5])
      (simp_all add: step_number_steps zip_and_upload_events 5)
  have 3: "resumes_from 3 s1
      (and_then (step_do limit step3 VPages unPages (\<lambda>k. scrape_pages (fetch_scrape (io_at w k)) us))
         (\<lambda>ps. and_then (step_do limit4 step4 VUpload unUpload (\<lambda>k. zip_and_upload (io_at w k) u ps))
            (\<lambda>up. step_do limit5 step5 VResult unResult (\<lambda>k. generate_result up))) s1)"
    for s1 limit limit4 limit5 u us
    by (rule and_then_resumes [where k = 3 and k' = 4])
      (simp_all add: step_number_steps scrape_pages_events 4)
  have 2: "resumes_from 2 s1
      (and_then (step_do limit2 step2 VUrls unUrls (\<lambda>k. fetch_and_parse (fetch_sitemap (io_at w k)) u))
         (\<lambda>us. and_then (step_do limit step3 VPages unPages (\<lambda>k. scrape_pages (fetch_scrape (io_at w k)) us))
         (\<lambda>ps. and_then (step_do limit4 step4 VUpload unUpload (\<lambda>k. zip_and_upload (io_at w k) u ps))
            (\<lambda>up. step_do limit5 step5 VResult unResult (\<lambda>k. generate_result up)))) s1)"
    for s1 limit limit2 limit4 limit5 u
    by (rule and_then_resumes [where k = 2 and k' = 3])
      (simp_all add: step_number_steps fetch_and_parse_events 3)
  show ?thesis
    unfolding run_def
    by (rule and_then_resumes [where k = 1 and k' = 2])
      (simp_all add: step_number_steps get_sitemap_url_events 2)
qed

section \<open>The file name of a scraped page\<close>

lemma split_on_not_Nil: "split_on sep xs \<noteq> []"
  by (induction xs) (auto split: list.splits)

lemma split_on_append:
  "split_on sep (xs @ sep # ys) = split_on sep xs @ split_on sep ys"
proof (induction xs)
  case Nil
  then show ?case by simp
next
  case (Cons c cs)
  obtain p ps where "split_on sep cs = p # ps"
    using split_on_not_Nil [of sep cs] by (cases "split_on sep cs") auto
  with Cons show ?case by simp
qed

lemma split_on_no_sep: "sep \<notin> set xs \<Longrightarrow> split_on sep xs = [xs]"
  by (induction xs) auto

lemma segments_append: "segments (pre @ 0x2F # rest) = segments pre @ segments rest"
  by (simp add: segments_def split_on_append)

lemma segments_nonempty: "p \<in> set (segments url) \<Longrightarrow> p \<noteq> []"
  by (simp add: segments_def)

lemma file_name_segments:
  "file_name url = (if segments url = [] then str ''index'' else last (segments url)) @ str ''.md''"
proof (cases "segments url = []")
  case True
  then show ?thesis by (simp add: file_name_def pop_def)
next
  case False
  then have "last (segments url) \<noteq> []"
    using segments_nonempty [of "last (segments url)" url] by simp
  with False show ?thesis by (simp add: file_name_def pop_def)
qed

lemma after_scheme_colon:
  "0x3A \<notin> set scheme \<Longrightarrow> after_scheme (scheme @ str ''://'' @ r) = r"
  by (induction scheme) (auto simp: prefix_def)

lemma path_segments_url:
  assumes "0x3A \<notin> set scheme" and "0x2F \<notin> set host"
    and "0x3F \<notin> set rest" and "0x23 \<notin> set rest"
  shows "path_segments (scheme @ str ''://'' @ host @ [0x2F] @ rest) = segments rest"
proof -
  let ?P = "\<lambda>c. c \<noteq> (0x3F :: jschar) \<and> c \<noteq> 0x23"
  have a: "after_scheme (scheme @ str ''://'' @ host @ [0x2F] @ rest) = host @ [0x2F] @ rest"
    using assms(1) by (rule after_scheme_colon)
  have d: "dropWhile (\<lambda>c. c \<noteq> 0x2F) (host @ [0x2F] @ rest) = 0x2F # rest"
    using assms(2) by (auto simp: dropWhile_append3)
  have t: "takeWhile ?P rest = rest"
    using assms(3,4) by (auto intro: takeWhile_eq_all_conv [THEN iffD2])
  have "url_path (scheme @ str ''://'' @ host @ [0x2F] @ rest) = takeWhile ?P (0x2F # rest)"
    unfolding url_path_def a d ..
  also have "\<dots> = 0x2F # takeWhile ?P rest"
    by simp
  finally have "url_path (scheme @ str ''://'' @ host @ [0x2F] @ rest) = 0x2F # rest"
    unfolding t .
  moreover have "segments (0x2F # rest) = segments rest"
    using segments_append [of "[]" rest] by (simp add: segments_def)
  ultimately show ?thesis
    by (simp only: path_segments_def)
qed

text \<open>
  Claim C5, as amended. The file name is never just the extension: it is a non-empty name
  followed by \<^verbatim>\<open>.md\<close>. The name \<^verbatim>\<open>index\<close> is used when the URL string as a whole, scheme
  and host included, has no non-empty piece between slashes. For a URL
  \<^verbatim>\<open>scheme://host/rest\<close> without query and fragment whose path has a segment, the name is the
  final non-empty path segment.
\<close>

theorem file_name_of_url:
  "file_name url \<noteq> str ''.md'' \<and>
   (\<exists>name. name \<noteq> [] \<and> file_name url = name @ str ''.md'') \<and>
   (segments url = [] \<longrightarrow> file_name url = str ''index.md'') \<and>
   (url = scheme @ str ''://'' @ host @ [0x2F] @ rest \<and> 0x3A \<notin> set scheme \<and>
    0x2F \<notin> set host \<and> 0x3F \<notin> set rest \<and> 0x23 \<notin> set rest \<and> path_segments url \<noteq> []
    \<longrightarrow> file_name url = last (path_segments url) @ str ''.md'')"
proof -
  let ?name = "if segments url = [] then str ''index'' else last (segments url)"
  have name: "?name \<noteq> []"
    using segments_nonempty [of "last (segments url)" url] by simp
  have fn: "file_name url = ?name @ str ''.md''"
    by (rule file_name_segments)
  have 1: "file_name url \<noteq> str ''.md''"
    using name unfolding fn by (cases ?name) simp_all
  have 2: "\<exists>name. name \<noteq> [] \<and> file_name url = name @ str ''.md''"
    using name fn by blast
  have 3: "segments url = [] \<longrightarrow> file_name url = str ''index.md''"
    by (simp add: fn)
  have 4: "file_name url = last (path_segments url) @ str ''.md''"
    if u: "url = scheme @ str ''://'' @ host @ [0x2F] @ rest"
      and c: "0x3A \<notin> set scheme" "0x2F \<notin> set host" "0x3F \<notin> set rest" "0x23 \<notin> set rest"
      and ne: "path_segments url \<noteq> []"
  proof -
    have ps: "path_segments url = segments rest"
      unfolding u using c by (rule path_segments_url)
    have "url = (scheme @ str ''://'' @ host) @ 0x2F # rest"
      using u by simp
    then have "segments url = segments (scheme @ str ''://'' @ host) @ segments rest"
      by (simp only: segments_append)
    with ps ne show ?thesis
      by (simp add: fn)
  qed
  from 1 2 3 4 show ?thesis by blast
qed

theorem file_name_of_url_witness:
  "path_segments (str ''https://example.com/docs/intro/'') = [str ''docs'', str ''intro''] \<and>
   file_name (str ''https://example.com/docs/intro/'') = str ''intro.md'' \<and>
   segments (str ''/'') = [] \<and> file_name (str ''/'') = str ''index.md''"
  using file_name_of_url [where url = "str ''https://example.com/docs/intro/''"
      and scheme = "str ''https''" and host = "str ''example.com''" and rest = "str ''docs/intro/''"]
    file_name_of_url [where url = "str ''/''"]
  by (simp add: path_segments_def url_path_def segments_def)

text \<open>
  Claim C5 as stated fails: the path of \<^verbatim>\<open>https://example.com/\<close> has no segment, and the
  file name is \<^verbatim>\<open>example.com.md\<close>, not the fallback; the final path segment of
  \<^verbatim>\<open>https://example.com/a?x=1\<close> is \<^verbatim>\<open>a\<close>, and the file name is \<^verbatim>\<open>a?x=1.md\<close>.
\<close>

theorem file_name_root_url:
  "path_segments (str ''https://example.com/'') = [] \<and>
   file_name (str ''https://example.com/'') = str ''example.com.md'' \<and>
   path_segments (str ''https://example.com/a?x=1'') = [str ''a''] \<and>
   file_name (str ''https://example.com/a?x=1'') = str ''a?x=1.md''"
  by (simp add: path_segments_def url_path_def segments_def file_name_def pop_def)

section \<open>A failed sitemap fetch\<close>

lemma step_do_fresh_first:
  assumes "step_log s name = None" and "body 0 = (Inr x, es)"
  shows "step_do limit name enc dec body s =
           (Inr x, s\<lparr>step_log := (step_log s)(name \<mapsto> enc x), trace := trace s @ Invoke name # es\<rparr>)"
proof -
  let ?b = "\<lambda>k. case body k of (r, es) \<Rightarrow> (r, Invoke name # es)"
  have "fst (?b 0) = Inr x"
    using assms(2) by simp
  then have "attempts limit 0 ?b = ?b 0"
    by (rule attempts_first)
  with assms show ?thesis
    by (simp add: step_do_def)
qed

lemma step_do_fresh_once:
  assumes "step_log s name = None" and "body 0 = (Inl e, es)"
  shows "step_do 0 name enc dec body s = (Inl e, s\<lparr>trace := trace s @ Invoke name # es\<rparr>)"
  using assms by (simp add: step_do_def)

lemma get_sitemap_url_valid:
  assumes "opt_prop payload (str ''sitemapUrl'') = Some (JStr u)" and "u \<noteq> []"
  shows "get_sitemap_url payload = (Inr u, [])"
  using assms by (simp add: get_sitemap_url_def wrap_def)

lemma first_step_yields:
  assumes "opt_prop payload (str ''sitemapUrl'') = Some (JStr u)" and "u \<noteq> []"
    and "step_log s step1 = None \<or> step_log s step1 = Some (VUrl u)"
  shows "\<exists>s1. step_do limit step1 VUrl unUrl (\<lambda>k. get_sitemap_url payload) s = (Inr u, s1) \<and>
           (\<forall>n. n \<noteq> step1 \<longrightarrow> step_log s1 n = step_log s n)"
proof (cases "step_log s step1")
  case None
  show ?thesis
    using step_do_fresh_first [OF None get_sitemap_url_valid [OF assms(1,2)], of limit VUrl unUrl]
    by simp
next
  case (Some v)
  with assms(3) have "v = VUrl u" by simp
  with Some step_do_hit [OF Some, of limit VUrl unUrl "\<lambda>k. get_sitemap_url payload"]
  show ?thesis by simp
qed

text \<open>
  Claim C8. The payload holds the sitemap URL, the first step is not committed or committed
  with that URL, and the sitemap step is not committed. When the fetch of the sitemap
  resolves to a response whose status is not from 200 to 299, the sitemap step fails with
  the message \<^verbatim>\<open>Failed to fetch sitemap:\<close> followed by the status and the status text, wrapped
  with the step's name; the step is not retried, and the instance ends errored with that
  message, which begins with \<^verbatim>\<open>Fetch & Parse Sitemap failed:\<close>.
\<close>

theorem sitemap_fetch_failure:
  assumes "opt_prop payload (str ''sitemapUrl'') = Some (JStr sitemapUrl)" and "sitemapUrl \<noteq> []"
    and "step_log s step1 = None \<or> step_log s step1 = Some (VUrl sitemapUrl)"
    and "step_log s step2 = None"
    and "fetch_sitemap (io_at w 0) sitemapUrl = Inr response"
    and "\<not> ok (resp_status response)"
  shows "fst (fetch_and_parse (fetch_sitemap (io_at w 0)) sitemapUrl) =
           Inl (str ''Fetch & Parse Sitemap failed: '' @ str ''Failed to fetch sitemap: '' @
                show_nat (resp_status response) @ str '' '' @ resp_statusText response) \<and>
         instance_end (fst (run w payload s)) =
           Errored (str ''Fetch & Parse Sitemap failed: '' @ str ''Failed to fetch sitemap: '' @
                    show_nat (resp_status response) @ str '' '' @ resp_statusText response)"
proof -
  let ?msg = "str ''Fetch & Parse Sitemap failed: '' @ str ''Failed to fetch sitemap: '' @
                show_nat (resp_status response) @ str '' '' @ resp_statusText response"
  have body: "fetch_and_parse (fetch_sitemap (io_at w 0)) sitemapUrl = (Inl ?msg, [SitemapGet sitemapUrl])"
    using assms(5,6) by (simp add: fetch_and_parse_def wrap_def)
  from first_step_yields [OF assms(1,2,3)] obtain s1 where
    s1: "step_do (default_retries w) step1 VUrl unUrl (\<lambda>k. get_sitemap_url payload) s = (Inr sitemapUrl, s1)"
    and frame: "\<forall>n. n \<noteq> step1 \<longrightarrow> step_log s1 n = step_log s n"
    by blast
  have "step1 \<noteq> step2"
    using step_names_distinct by simp
  with frame assms(4) have "step_log s1 step2 = None"
    by simp
  note step_do_fresh_once [OF this, of "\<lambda>k. fetch_and_parse (fetch_sitemap (io_at w k)) sitemapUrl",
      OF body]
  with s1 have "fst (run w payload s) = Inl ?msg"
    unfolding run_def and_then_def by simp
  with body show ?thesis
    by (simp add: instance_end_def)
qed

theorem sitemap_fetch_failure_witness:
  "\<not> ok 500 \<and>
   instance_end (fst (run example_world (example_payload (str ''https://example.org/sitemap.xml'')) init)) =
     Errored (str ''Fetch & Parse Sitemap failed: Failed to fetch sitemap: 500 Internal Server Error'')"
  using sitemap_fetch_failure [where payload = "example_payload (str ''https://example.org/sitemap.xml'')"
      and sitemapUrl = "str ''https://example.org/sitemap.xml''" and s = init and w = example_world
      and response = "\<lparr>resp_status = 500, resp_statusText = str ''Internal Server Error'',
                resp_text = Inr []\<rparr>"]
  by (simp add: example_payload_def init_def example_world_def example_io_def example_fetch_def
      ok_def show_nat.simps digit_def)

section \<open>The download URL of a completed run\<close>

lemma attempts_last:
  "attempts n k body = (r, es) \<Longrightarrow>
   \<exists>j es'. k \<le> j \<and> j \<le> k + n \<and> body j = (r, es') \<and> set es' \<subseteq> set es"
proof (induction n arbitrary: k r es)
  case 0
  then show ?case by auto
next
  case (Suc n)
  obtain r0 es0 where b: "body k = (r0, es0)"
    by (cases "body k")
  show ?case
  proof (cases r0)
    case (Inr v)
    with b Suc.prems have "body k = (r, es)" by simp
    then show ?thesis by (intro exI [of _ k] exI [of _ es]) simp
  next
    case (Inl e)
    obtain r1 es1 where a: "attempts n (Suc k) body = (r1, es1)"
      by (cases "attempts n (Suc k) body")
    from Suc.IH [OF a] obtain j es' where
      j: "Suc k \<le> j" "j \<le> Suc k + n" "body j = (r1, es')" "set es' \<subseteq> set es1"
      by blast
    from Suc.prems b Inl a have "r = r1" "es = es0 @ es1"
      by auto
    with j show ?thesis
      by (intro exI [of _ j] exI [of _ es']) auto
  qed
qed

lemma step_do_Inr:
  assumes sd: "step_do limit name enc dec body s = (Inr x, s')"
    and de: "\<And>v y. dec v = Some y \<Longrightarrow> v = enc y"
  shows "step_log s' = (step_log s)(name \<mapsto> enc x) \<and>
         (\<forall>v. step_log s name = Some v \<longrightarrow> v = enc x \<and> s' = s) \<and>
         (step_log s name = None \<longrightarrow>
            (\<exists>j es. j \<le> limit \<and> body j = (Inr x, es) \<and> set es \<subseteq> set (new_events s s')))"
proof (cases "step_log s name")
  case (Some v)
  from sd step_do_hit [OF Some, of limit enc dec body]
  have "dec v = Some x" "s' = s"
    by (auto split: option.splits)
  with de [of v x] Some show ?thesis
    by (auto simp: fun_upd_idem)
next
  case None
  let ?b = "\<lambda>k. case body k of (r, es) \<Rightarrow> (r, Invoke name # es)"
  obtain r0 es where a: "attempts limit 0 ?b = (r0, es)"
    by (cases "attempts limit 0 ?b")
  with sd None have r0: "r0 = Inr x"
    and s': "s' = s\<lparr>step_log := (step_log s)(name \<mapsto> enc x), trace := trace s @ es\<rparr>"
    by (auto simp: step_do_def split: sum.splits)
  from attempts_last [OF a] obtain j es' where
    j: "j \<le> limit" "?b j = (r0, es')" "set es' \<subseteq> set es"
    by auto
  obtain es0 where b: "body j = (r0, es0)" "es' = Invoke name # es0"
    using j(2) by (cases "body j") auto
  have "new_events s s' = es"
    by (simp add: new_events_def s')
  with j b r0 have "\<exists>j es. j \<le> limit \<and> body j = (Inr x, es) \<and> set es \<subseteq> set (new_events s s')"
    by (intro exI [of _ j] exI [of _ es0]) auto
  with None s' show ?thesis by simp
qed

lemma step_do_log:
  assumes "step_do limit name enc dec body s = (r, s')"
  shows "step_log s' = step_log s \<or>
         (step_log s name = None \<and>
          (\<exists>x j es. j \<le> limit \<and> body j = (Inr x, es) \<and> step_log s' = (step_log s)(name \<mapsto> enc x)))"
proof (cases "step_log s name")
  case (Some v)
  from assms step_do_hit [OF Some, of limit enc dec body] have "s' = s"
    by simp
  then show ?thesis by simp
next
  case None
  from step_do_miss [OF None assms] obtain j where
    j: "j \<le> limit" "fst (body j) = r"
    and l: "step_log s' = (case r of Inl e \<Rightarrow> step_log s | Inr x \<Rightarrow> (step_log s)(name \<mapsto> enc x))"
    by blast
  show ?thesis
  proof (cases r)
    case (Inl e)
    with l show ?thesis by simp
  next
    case (Inr x)
    with j have "body j = (Inr x, snd (body j))"
      by (cases "body j") simp
    moreover from Inr l have "step_log s' = (step_log s)(name \<mapsto> enc x)"
      by simp
    ultimately show ?thesis
      using j(1) None by blast
  qed
qed

lemma and_then_InrE:
  assumes "and_then m f s = (Inr y, s'')"
  obtains x s' where "m s = (Inr x, s')" and "f x s' = (Inr y, s'')"
  using assms by (auto simp: and_then_def split: prod.splits sum.splits)

lemma unUrl_VUrl: "unUrl v = Some y \<Longrightarrow> v = VUrl y"
  by (cases v) auto

lemma unUpload_VUpload: "unUpload v = Some y \<Longrightarrow> v = VUpload y"
  by (cases v) auto

lemma unResult_VResult: "unResult v = Some y \<Longrightarrow> v = VResult y"
  by (cases v) auto

lemma get_sitemap_url_Inr:
  assumes "get_sitemap_url payload = (Inr u, es)"
  shows "u \<noteq> [] \<and> opt_prop payload (str ''sitemapUrl'') = Some (JStr u)"
proof -
  let ?v = "opt_prop payload (str ''sitemapUrl'')"
  from assms have t: "truthy ?v" and i: "is_string ?v" and u: "the_string ?v = u"
    by (auto simp: get_sitemap_url_def wrap_def Let_def split: if_splits)
  from i obtain x where "?v = Some (JStr x)"
    by (cases ?v rule: is_string.cases) auto
  with t u show ?thesis by simp
qed

lemma zip_and_upload_Inr:
  assumes "zip_and_upload w u ps = (Inr up, es)"
  shows "\<exists>d. domain u = Inr d \<and>
           zipName up = d @ str ''_'' @ safe_timestamp (now_iso w) @ str ''.zip'' \<and>
           es = [BucketPut (zipName up)] \<and>
           (\<exists>zipData. zipSync w (zipEntries (strToU8 w) ps) = Inr zipData \<and>
              bucket_put w (zipName up) zipData = None)"
  using assms
  by (auto simp: zip_and_upload_def wrap_def Let_def split: sum.splits option.splits)

lemma domain_Inr:
  assumes "domain u = Inr d"
  shows "2 < length (split_on 0x2F u) \<and>
         d = map (\<lambda>c. if c = 0x2E then 0x5F else c) (split_on 0x2F u ! 2)"
  using assms by (auto simp: domain_def Let_def replace_chars_def split: if_splits)

lemma safe_timestamp_map:
  "safe_timestamp t = map (\<lambda>c. if c = 0x3A \<or> c = 0x2E then 0x2D else c) t"
  by (simp add: safe_timestamp_def replace_chars_def)

lemma generate_result_Inr:
  "generate_result up = (Inr res, es) \<Longrightarrow> res = \<lparr>downloadUrl = public_prefix @ zipName up\<rparr>"
  by (auto simp: generate_result_def wrap_def)

lemma split_on_host:
  assumes "0x2F \<notin> set scheme" and "0x2F \<notin> set host" and "tail = [] \<or> hd tail = 0x2F"
  shows "\<exists>ps. split_on 0x2F (scheme @ str ''//'' @ host @ tail) = scheme # [] # host # ps"
proof -
  have 1: "split_on 0x2F (scheme @ str ''//'' @ host @ tail)
             = split_on 0x2F scheme @ split_on 0x2F (0x2F # host @ tail)"
    using split_on_append [of "0x2F" scheme "0x2F # host @ tail"] by simp
  have 2: "split_on 0x2F scheme = [scheme]"
    using assms(1) by (rule split_on_no_sep)
  have 3: "\<exists>ps. split_on 0x2F (host @ tail) = host # ps"
  proof (cases tail)
    case Nil
    with assms(2) show ?thesis by (simp add: split_on_no_sep)
  next
    case (Cons c rest)
    with assms(3) have "tail = 0x2F # rest" by simp
    with split_on_append [of "0x2F" host rest] assms(2) show ?thesis
      by (simp add: split_on_no_sep)
  qed
  then obtain ps where "split_on 0x2F (host @ tail) = host # ps" ..
  with 1 2 show ?thesis by simp
qed

lemma domain_host:
  assumes "0x2F \<notin> set scheme" and "0x2F \<notin> set host" and "tail = [] \<or> hd tail = 0x2F"
  shows "domain (scheme @ str ''//'' @ host @ tail) = Inr (replace_chars [0x2E] 0x5F host)"
proof -
  from split_on_host [OF assms] obtain ps where
    "split_on 0x2F (scheme @ str ''//'' @ host @ tail) = scheme # [] # host # ps" ..
  then show ?thesis
    by (simp add: domain_def Let_def)
qed

lemma consistent_frame:
  assumes "step_log s' step1 = step_log s step1" and "step_log s' step4 = step_log s step4"
    and "step_log s' step5 = step_log s step5"
  shows "consistent payload s' = consistent payload s"
  by (simp add: consistent_def assms)

lemma consistent_init: "consistent payload init"
  by (simp add: consistent_def init_def)

lemma consistent_step1:
  assumes c: "consistent payload s" and n: "step_log s step1 = None"
    and l: "step_log s' = (step_log s)(step1 \<mapsto> VUrl u)"
    and u: "u \<noteq> []" "opt_prop payload (str ''sitemapUrl'') = Some (JStr u)"
  shows "consistent payload s'"
proof -
  have d: "step1 \<noteq> step4" "step1 \<noteq> step5" "step4 \<noteq> step5"
    using step_names_distinct by auto
  from c n have 4: "step_log s step4 = None"
    by (cases "step_log s step4") (auto simp: consistent_def)
  with c have 5: "step_log s step5 = None"
    by (cases "step_log s step5") (auto simp: consistent_def)
  from 4 5 d l u show ?thesis
    by (simp add: consistent_def)
qed

lemma consistent_step4:
  assumes c: "consistent payload s" and n: "step_log s step4 = None"
    and l: "step_log s' = (step_log s)(step4 \<mapsto> VUpload up)"
    and u: "step_log s step1 = Some (VUrl u)" "domain u = Inr d"
      "zipName up = d @ str ''_'' @ safe_timestamp t @ str ''.zip''"
  shows "consistent payload s'"
proof -
  have d: "step1 \<noteq> step4" "step1 \<noteq> step5" "step4 \<noteq> step5"
    using step_names_distinct by auto
  from c n have 5: "step_log s step5 = None"
    by (cases "step_log s step5") (auto simp: consistent_def)
  from c u(1) have 1: "u \<noteq> [] \<and> opt_prop payload (str ''sitemapUrl'') = Some (JStr u)"
    by (auto simp: consistent_def)
  have "\<exists>d t. domain u = Inr d \<and> zipName up = d @ str ''_'' @ safe_timestamp t @ str ''.zip''"
    using u(2,3) by blast
  with 1 5 d l u(1) show ?thesis
    by (simp add: consistent_def)
qed

lemma consistent_step5:
  assumes c: "consistent payload s"
    and l: "step_log s' = (step_log s)(step5 \<mapsto> VResult \<lparr>downloadUrl = public_prefix @ zipName up\<rparr>)"
    and u: "step_log s step4 = Some (VUpload up)"
  shows "consistent payload s'"
proof -
  have d: "step1 \<noteq> step4" "step1 \<noteq> step5" "step4 \<noteq> step5"
    using step_names_distinct by auto
  from c d l u show ?thesis
    by (simp add: consistent_def)
qed

lemma consistent_last:
  assumes "consistent payload s" and "step_log s step4 = Some (VUpload up)"
  shows "consistent payload
           (snd (step_do limit step5 VResult unResult (\<lambda>k. generate_result up) s))"
proof -
  obtain r s' where sd: "step_do limit step5 VResult unResult (\<lambda>k. generate_result up) s = (r, s')"
    by (cases "step_do limit step5 VResult unResult (\<lambda>k. generate_result up) s")
  from step_do_log [OF sd] show ?thesis
  proof
    assume "step_log s' = step_log s"
    with assms(1) sd show ?thesis
      by (simp add: consistent_frame [of s' s])
  next
    assume "step_log s step5 = None \<and>
      (\<exists>x j es. j \<le> limit \<and> generate_result up = (Inr x, es) \<and>
         step_log s' = (step_log s)(step5 \<mapsto> VResult x))"
    then obtain x es where "generate_result up = (Inr x, es)"
      and l: "step_log s' = (step_log s)(step5 \<mapsto> VResult x)"
      by blast
    from generate_result_Inr [OF this(1)] l
    have "step_log s' = (step_log s)(step5 \<mapsto> VResult \<lparr>downloadUrl = public_prefix @ zipName up\<rparr>)"
      by simp
    from consistent_step5 [OF assms(1) this assms(2)] sd show ?thesis
      by simp
  qed
qed

lemma consistent_from4:
  assumes c: "consistent payload s" and u: "step_log s step1 = Some (VUrl u)"
  shows "consistent payload
           (snd (and_then (step_do limit step4 VUpload unUpload (\<lambda>k. zip_and_upload (io_at w k) u ps))
                   (\<lambda>up. step_do limit5 step5 VResult unResult (\<lambda>k. generate_result up)) s))"
proof -
  let ?m = "step_do limit step4 VUpload unUpload (\<lambda>k. zip_and_upload (io_at w k) u ps)"
  obtain r s' where sd: "?m s = (r, s')"
    by (cases "?m s")
  have d: "step1 \<noteq> step4"
    using step_names_distinct by auto
  have c': "consistent payload s'"
    using step_do_log [OF sd]
  proof
    assume "step_log s' = step_log s"
    with c show ?thesis
      by (simp add: consistent_frame [of s' s])
  next
    assume "step_log s step4 = None \<and>
      (\<exists>x j es. j \<le> limit \<and> zip_and_upload (io_at w j) u ps = (Inr x, es) \<and>
         step_log s' = (step_log s)(step4 \<mapsto> VUpload x))"
    then obtain x j es where n: "step_log s step4 = None"
      and z: "zip_and_upload (io_at w j) u ps = (Inr x, es)"
      and l: "step_log s' = (step_log s)(step4 \<mapsto> VUpload x)"
      by blast
    from zip_and_upload_Inr [OF z] obtain d where
      "domain u = Inr d" "zipName x = d @ str ''_'' @ safe_timestamp (now_iso (io_at w j)) @ str ''.zip''"
      by blast
    from consistent_step4 [OF c n l u this] show ?thesis .
  qed
  show ?thesis
  proof (cases r)
    case (Inl e)
    with sd c' show ?thesis
      by (simp add: and_then_def)
  next
    case (Inr up)
    with sd step_do_Inr [of limit step4 VUpload unUpload _ s up s'] unUpload_VUpload
    have "step_log s' step4 = Some (VUpload up)"
      by simp
    from consistent_last [OF c' this] sd Inr show ?thesis
      by (simp add: and_then_def)
  qed
qed

lemma consistent_pass:
  assumes c: "consistent payload s" and u: "step_log s step1 = Some (VUrl u)"
    and name: "name \<noteq> step1" "name \<noteq> step4" "name \<noteq> step5"
    and f: "\<And>x s1. consistent payload s1 \<Longrightarrow> step_log s1 step1 = Some (VUrl u) \<Longrightarrow>
              consistent payload (snd (f x s1))"
  shows "consistent payload (snd (and_then (step_do limit name enc dec body) f s))"
proof -
  obtain r s' where sd: "step_do limit name enc dec body s = (r, s')"
    by (cases "step_do limit name enc dec body s")
  from step_do_log [OF sd]
  have same: "step_log s' step1 = step_log s step1 \<and> step_log s' step4 = step_log s step4 \<and>
              step_log s' step5 = step_log s step5"
    using name by auto
  with c have c': "consistent payload s'"
    by (simp add: consistent_frame [of s' s])
  show ?thesis
  proof (cases r)
    case (Inl e)
    with sd c' show ?thesis
      by (simp add: and_then_def)
  next
    case (Inr x)
    from f [OF c', of x] same u sd Inr show ?thesis
      by (simp add: and_then_def)
  qed
qed

lemma consistent_run:
  assumes c: "consistent payload s"
  shows "consistent payload (snd (run w payload s))"
proof -
  let ?m = "step_do (default_retries w) step1 VUrl unUrl (\<lambda>k. get_sitemap_url payload)"
  have d: "step2 \<noteq> step1" "step2 \<noteq> step4" "step2 \<noteq> step5"
    "step3 \<noteq> step1" "step3 \<noteq> step4" "step3 \<noteq> step5"
    using step_names_distinct by auto
  obtain r s' where sd: "?m s = (r, s')"
    by (cases "?m s")
  have c': "consistent payload s'"
    using step_do_log [OF sd]
  proof
    assume "step_log s' = step_log s"
    with c show ?thesis
      by (simp add: consistent_frame [of s' s])
  next
    assume "step_log s step1 = None \<and>
      (\<exists>x j es. j \<le> default_retries w \<and> get_sitemap_url payload = (Inr x, es) \<and>
         step_log s' = (step_log s)(step1 \<mapsto> VUrl x))"
    then obtain x es where n: "step_log s step1 = None"
      and g: "get_sitemap_url payload = (Inr x, es)"
      and l: "step_log s' = (step_log s)(step1 \<mapsto> VUrl x)"
      by blast
    from get_sitemap_url_Inr [OF g] consistent_step1 [OF c n l] show ?thesis
      by simp
  qed
  show ?thesis
  proof (cases r)
    case (Inl e)
    with sd c' show ?thesis
      by (simp add: run_def and_then_def)
  next
    case (Inr u)
    with sd step_do_Inr [of "default_retries w" step1 VUrl unUrl _ s u s'] unUrl_VUrl
    have u: "step_log s' step1 = Some (VUrl u)"
      by simp
    have "consistent payload (snd (
        and_then (step_do 0 step2 VUrls unUrls
                 (\<lambda>k. fetch_and_parse (fetch_sitemap (io_at w k)) u)) (\<lambda>pageUrls.
        and_then (step_do (default_retries w) step3 VPages unPages
                 (\<lambda>k. scrape_pages (fetch_scrape (io_at w k)) pageUrls)) (\<lambda>scrapedPages.
        and_then (step_do (default_retries w) step4 VUpload unUpload
                 (\<lambda>k. zip_and_upload (io_at w k) u scrapedPages)) (\<lambda>uploadResult.
        step_do (default_retries w) step5 VResult unResult
          (\<lambda>k. generate_result uploadResult)))) s'))"
      using c' u d(1-3)
    proof (rule consistent_pass)
      fix us s2
      assume "consistent payload s2" and "step_log s2 step1 = Some (VUrl u)"
      then show "consistent payload (snd (
        and_then (step_do (default_retries w) step3 VPages unPages
                 (\<lambda>k. scrape_pages (fetch_scrape (io_at w k)) us)) (\<lambda>scrapedPages.
        and_then (step_do (default_retries w) step4 VUpload unUpload
                 (\<lambda>k. zip_and_upload (io_at w k) u scrapedPages)) (\<lambda>uploadResult.
        step_do (default_retries w) step5 VResult unResult
          (\<lambda>k. generate_result uploadResult))) s2))"
        using d(4-6) by (rule consistent_pass) (rule consistent_from4)
    qed
    with sd Inr show ?thesis
      by (simp add: run_def and_then_def)
  qed
qed

lemma step_do_frame:
  assumes "step_do limit name enc dec body s = (r, s')" and "n \<noteq> name"
  shows "step_log s' n = step_log s n"
  using step_do_log [OF assms(1)] assms(2) by auto

lemma step_do_trace:
  assumes "step_do limit name enc dec body s = (r, s')"
  shows "\<exists>es. trace s' = trace s @ es"
proof (cases "step_log s name")
  case None
  from step_do_miss [OF None assms] show ?thesis by blast
next
  case (Some v)
  from assms step_do_hit [OF Some, of limit enc dec body] show ?thesis by simp
qed

lemma archive_name:
  assumes c: "consistent payload s" and r: "run w payload s = (Inr res, s')"
  shows "\<exists>sitemapUrl d t up.
           opt_prop payload (str ''sitemapUrl'') = Some (JStr sitemapUrl) \<and>
           domain sitemapUrl = Inr d \<and>
           (\<forall>scheme host tail.
              sitemapUrl = scheme @ str ''//'' @ host @ tail \<and> 0x2F \<notin> set scheme \<and>
              0x2F \<notin> set host \<and> (tail = [] \<or> hd tail = 0x2F)
              \<longrightarrow> d = replace_chars [0x2E] 0x5F host) \<and>
           step_log s' step4 = Some (VUpload up) \<and>
           zipName up = d @ str ''_'' @ safe_timestamp t @ str ''.zip'' \<and>
           downloadUrl res = public_prefix @ zipName up \<and>
           (step_log s step4 = None \<longrightarrow>
              (\<exists>k\<le>default_retries w. t = now_iso (io_at w k) \<and>
                 (\<exists>zipData. bucket_put (io_at w k) (zipName up) zipData = None)) \<and>
              BucketPut (zipName up) \<in> set (new_events s s'))"
proof -
  have d: "step1 \<noteq> step2" "step1 \<noteq> step3" "step1 \<noteq> step4" "step1 \<noteq> step5"
    "step4 \<noteq> step2" "step4 \<noteq> step3" "step4 \<noteq> step5" "step5 \<noteq> step2" "step5 \<noteq> step3"
    using step_names_distinct by auto
  let ?lim = "default_retries w"
  from r obtain u s1 where
    1: "step_do ?lim step1 VUrl unUrl (\<lambda>k. get_sitemap_url payload) s = (Inr u, s1)"
    and r1: "and_then (step_do 0 step2 VUrls unUrls
                 (\<lambda>k. fetch_and_parse (fetch_sitemap (io_at w k)) u)) (\<lambda>pageUrls.
        and_then (step_do ?lim step3 VPages unPages
                 (\<lambda>k. scrape_pages (fetch_scrape (io_at w k)) pageUrls)) (\<lambda>scrapedPages.
        and_then (step_do ?lim step4 VUpload unUpload
                 (\<lambda>k. zip_and_upload (io_at w k) u scrapedPages)) (\<lambda>uploadResult.
        step_do ?lim step5 VResult unResult
          (\<lambda>k. generate_result uploadResult)))) s1 = (Inr res, s')"
    unfolding run_def by (rule and_then_InrE)
  from r1 obtain us s2 where
    2: "step_do 0 step2 VUrls unUrls (\<lambda>k. fetch_and_parse (fetch_sitemap (io_at w k)) u) s1 = (Inr us, s2)"
    and r2: "and_then (step_do ?lim step3 VPages unPages
                 (\<lambda>k. scrape_pages (fetch_scrape (io_at w k)) us)) (\<lambda>scrapedPages.
        and_then (step_do ?lim step4 VUpload unUpload
                 (\<lambda>k. zip_and_upload (io_at w k) u scrapedPages)) (\<lambda>uploadResult.
        step_do ?lim step5 VResult unResult
          (\<lambda>k. generate_result uploadResult))) s2 = (Inr res, s')"
    by (rule and_then_InrE)
  from r2 obtain ps s3 where
    3: "step_do ?lim step3 VPages unPages (\<lambda>k. scrape_pages (fetch_scrape (io_at w k)) us) s2 = (Inr ps, s3)"
    and r3: "and_then (step_do ?lim step4 VUpload unUpload
                 (\<lambda>k. zip_and_upload (io_at w k) u ps)) (\<lambda>uploadResult.
        step_do ?lim step5 VResult unResult
          (\<lambda>k. generate_result uploadResult)) s3 = (Inr res, s')"
    by (rule and_then_InrE)
  from r3 obtain up s4 where
    4: "step_do ?lim step4 VUpload unUpload (\<lambda>k. zip_and_upload (io_at w k) u ps) s3 = (Inr up, s4)"
    and 5: "step_do ?lim step5 VResult unResult (\<lambda>k. generate_result up) s4 = (Inr res, s')"
    by (rule and_then_InrE)
  note i1 = step_do_Inr [OF 1 unUrl_VUrl]
  note i4 = step_do_Inr [OF 4 unUpload_VUpload]
  note i5 = step_do_Inr [OF 5 unResult_VResult]
  \<comment> \<open>the log entries of steps 1, 4 and 5 through the chain of states\<close>
  have l1: "step_log s1 step1 = Some (VUrl u)"
    using i1 by simp
  have s3_1: "step_log s3 step1 = Some (VUrl u)"
    using l1 step_do_frame [OF 2, of step1] step_do_frame [OF 3, of step1] d by simp
  have s3_4: "step_log s3 step4 = step_log s step4"
    using step_do_frame [OF 1, of step4] step_do_frame [OF 2, of step4]
      step_do_frame [OF 3, of step4] d by simp
  have s4_5: "step_log s4 step5 = step_log s step5"
    using step_do_frame [OF 1, of step5] step_do_frame [OF 2, of step5]
      step_do_frame [OF 3, of step5] step_do_frame [OF 4, of step5] d by simp
  have l4: "step_log s4 step4 = Some (VUpload up)"
    using i4 by simp
  have s'_4: "step_log s' step4 = Some (VUpload up)"
    using l4 step_do_frame [OF 5, of step4] d by simp
  \<comment> \<open>the sitemap URL is the payload's\<close>
  have c1: "consistent payload s1"
  proof -
    from step_do_log [OF 1] show ?thesis
    proof
      assume "step_log s1 = step_log s"
      with c show ?thesis by (simp add: consistent_frame [of s1 s])
    next
      assume "step_log s step1 = None \<and>
        (\<exists>x j es. j \<le> ?lim \<and> get_sitemap_url payload = (Inr x, es) \<and>
           step_log s1 = (step_log s)(step1 \<mapsto> VUrl x))"
      then obtain x es where n: "step_log s step1 = None"
        and g: "get_sitemap_url payload = (Inr x, es)"
        and l: "step_log s1 = (step_log s)(step1 \<mapsto> VUrl x)"
        by blast
      from get_sitemap_url_Inr [OF g] consistent_step1 [OF c n l] show ?thesis
        by simp
    qed
  qed
  with l1 have pu: "opt_prop payload (str ''sitemapUrl'') = Some (JStr u)"
    by (auto simp: consistent_def)
  \<comment> \<open>the archive's name\<close>
  have name: "\<exists>dm t. domain u = Inr dm \<and>
      zipName up = dm @ str ''_'' @ safe_timestamp t @ str ''.zip'' \<and>
      (step_log s step4 = None \<longrightarrow>
         (\<exists>k\<le>?lim. t = now_iso (io_at w k) \<and>
            (\<exists>zipData. bucket_put (io_at w k) (zipName up) zipData = None)) \<and>
         BucketPut (zipName up) \<in> set (new_events s3 s4))"
  proof (cases "step_log s step4")
    case None
    with s3_4 i4 obtain k es where k: "k \<le> ?lim"
      and z: "zip_and_upload (io_at w k) u ps = (Inr up, es)"
      and es: "set es \<subseteq> set (new_events s3 s4)"
      by auto
    from zip_and_upload_Inr [OF z] obtain dm zipData where
      "domain u = Inr dm"
      "zipName up = dm @ str ''_'' @ safe_timestamp (now_iso (io_at w k)) @ str ''.zip''"
      "es = [BucketPut (zipName up)]"
      "bucket_put (io_at w k) (zipName up) zipData = None"
      by blast
    with k es show ?thesis
      by (intro exI [of _ dm] exI [of _ "now_iso (io_at w k)"]) auto
  next
    case (Some v)
    with s3_4 i4 have v: "v = VUpload up"
      by simp
    have "step_log s step1 = Some (VUrl u)"
    proof -
      from c Some obtain u' where u': "step_log s step1 = Some (VUrl u')"
        by (auto simp: consistent_def)
      with i1 show ?thesis by simp
    qed
    with c Some v show ?thesis
      by (auto simp: consistent_def)
  qed
  \<comment> \<open>the download URL\<close>
  have url: "downloadUrl res = public_prefix @ zipName up"
  proof (cases "step_log s step5")
    case None
    with s4_5 i5 obtain es where "generate_result up = (Inr res, es)"
      by auto
    from generate_result_Inr [OF this] show ?thesis by simp
  next
    case (Some v)
    with s4_5 i5 have v: "v = VResult res" and same: "s' = s4"
      by simp_all
    from c Some v obtain up' where
      up': "step_log s step4 = Some (VUpload up')" "res = \<lparr>downloadUrl = public_prefix @ zipName up'\<rparr>"
      by (auto simp: consistent_def)
    with s3_4 i4 have "up' = up" by simp
    with up' show ?thesis by simp
  qed
  \<comment> \<open>the events of step 4 are among the new events of the run\<close>
  have ev: "set (new_events s3 s4) \<subseteq> set (new_events s s')"
  proof -
    from step_do_trace [OF 1] step_do_trace [OF 2] step_do_trace [OF 3]
    obtain e1 e2 e3 where "trace s1 = trace s @ e1" "trace s2 = trace s1 @ e2" "trace s3 = trace s2 @ e3"
      by blast
    moreover from step_do_trace [OF 4] step_do_trace [OF 5]
    obtain e4 e5 where "trace s4 = trace s3 @ e4" "trace s' = trace s4 @ e5"
      by blast
    ultimately show ?thesis
      by (auto simp: new_events_def)
  qed
  from name obtain dm t where
    n1: "domain u = Inr dm" and n2: "zipName up = dm @ str ''_'' @ safe_timestamp t @ str ''.zip''"
    and n3: "step_log s step4 = None \<longrightarrow>
         (\<exists>k\<le>?lim. t = now_iso (io_at w k) \<and>
            (\<exists>zipData. bucket_put (io_at w k) (zipName up) zipData = None)) \<and>
         BucketPut (zipName up) \<in> set (new_events s3 s4)"
    by (elim exE conjE)
  have host: "\<forall>scheme host tail.
              u = scheme @ str ''//'' @ host @ tail \<and> 0x2F \<notin> set scheme \<and>
              0x2F \<notin> set host \<and> (tail = [] \<or> hd tail = 0x2F)
              \<longrightarrow> dm = replace_chars [0x2E] 0x5F host"
  proof (intro allI impI)
    fix scheme host tail
    assume "u = scheme @ str ''//'' @ host @ tail \<and> 0x2F \<notin> set scheme \<and>
              0x2F \<notin> set host \<and> (tail = [] \<or> hd tail = 0x2F)"
    with domain_host [of scheme host tail] n1 show "dm = replace_chars [0x2E] 0x5F host"
      by simp
  qed
  from n3 ev have n3': "step_log s step4 = None \<longrightarrow>
         (\<exists>k\<le>?lim. t = now_iso (io_at w k) \<and>
            (\<exists>zipData. bucket_put (io_at w k) (zipName up) zipData = None)) \<and>
         BucketPut (zipName up) \<in> set (new_events s s')"
    by blast
  show ?thesis
    using pu n1 host s'_4 n2 url n3'
    by (intro exI [of _ u] exI [of _ dm] exI [of _ t] exI [of _ up]) blast
qed

text \<open>
  Claim C6, as amended. A run that completes, from the initial state or any state reached by
  earlier executions of the instance (\<open>consistent\<close> holds of all of them, see
  \<open>consistent_init\<close> and \<open>consistent_run\<close>), returns the fixed public prefix followed by the
  archive name the fourth step committed, and nothing else. That name is the third piece of
  the sitemap URL string between slashes with every \<^verbatim>\<open>.\<close> replaced by \<^verbatim>\<open>_\<close>, then \<^verbatim>\<open>_\<close>, a
  timestamp with every \<^verbatim>\<open>:\<close> and \<^verbatim>\<open>.\<close> replaced by \<^verbatim>\<open>-\<close>, and \<^verbatim>\<open>.zip\<close>. For a URL written
  \<^verbatim>\<open>scheme//host\<close> or \<^verbatim>\<open>scheme//host/...\<close> the third piece is what stands between \<^verbatim>\<open>//\<close> and
  the next slash. When the fourth step runs in this execution, the timestamp is the clock of
  one of its attempts, and that attempt has put the archive into the bucket under the name.
\<close>

theorem archive_download_url:
  assumes c: "consistent payload s" and r: "run w payload s = (Inr res, s')"
  shows "\<exists>sitemapUrl t up.
           opt_prop payload (str ''sitemapUrl'') = Some (JStr sitemapUrl) \<and>
           2 < length (split_on 0x2F sitemapUrl) \<and>
           domain sitemapUrl =
             Inr (map (\<lambda>c. if c = 0x2E then 0x5F else c) (split_on 0x2F sitemapUrl ! 2)) \<and>
           (\<forall>scheme host tail.
              sitemapUrl = scheme @ str ''//'' @ host @ tail \<and> 0x2F \<notin> set scheme \<and>
              0x2F \<notin> set host \<and> (tail = [] \<or> hd tail = 0x2F)
              \<longrightarrow> split_on 0x2F sitemapUrl ! 2 = host) \<and>
           step_log s' step4 = Some (VUpload up) \<and>
           zipName up =
             map (\<lambda>c. if c = 0x2E then 0x5F else c) (split_on 0x2F sitemapUrl ! 2) @ str ''_'' @
             map (\<lambda>c. if c = 0x3A \<or> c = 0x2E then 0x2D else c) t @ str ''.zip'' \<and>
           downloadUrl res = public_prefix @ zipName up \<and>
           (step_log s step4 = None \<longrightarrow>
              (\<exists>k\<le>default_retries w. t = now_iso (io_at w k) \<and>
                 (\<exists>zipData. bucket_put (io_at w k) (zipName up) zipData = None)) \<and>
              BucketPut (zipName up) \<in> set (new_events s s'))"
proof -
  from archive_name [OF c r] obtain u d t up where
    u: "opt_prop payload (str ''sitemapUrl'') = Some (JStr u)"
    and d: "domain u = Inr d"
    and "\<forall>scheme host tail.
              u = scheme @ str ''//'' @ host @ tail \<and> 0x2F \<notin> set scheme \<and>
              0x2F \<notin> set host \<and> (tail = [] \<or> hd tail = 0x2F)
              \<longrightarrow> d = replace_chars [0x2E] 0x5F host"
    and l: "step_log s' step4 = Some (VUpload up)"
    and z: "zipName up = d @ str ''_'' @ safe_timestamp t @ str ''.zip''"
    and dl: "downloadUrl res = public_prefix @ zipName up"
    and t: "step_log s step4 = None \<longrightarrow>
              (\<exists>k\<le>default_retries w. t = now_iso (io_at w k) \<and>
                 (\<exists>zipData. bucket_put (io_at w k) (zipName up) zipData = None)) \<and>
              BucketPut (zipName up) \<in> set (new_events s s')"
    by (elim exE conjE)
  from domain_Inr [OF d] have len: "2 < length (split_on 0x2F u)"
    and d': "d = map (\<lambda>c. if c = 0x2E then 0x5F else c) (split_on 0x2F u ! 2)"
    by simp_all
  have host: "\<forall>scheme host tail.
              u = scheme @ str ''//'' @ host @ tail \<and> 0x2F \<notin> set scheme \<and>
              0x2F \<notin> set host \<and> (tail = [] \<or> hd tail = 0x2F)
              \<longrightarrow> split_on 0x2F u ! 2 = host"
  proof (intro allI impI)
    fix scheme host tail
    assume a: "u = scheme @ str ''//'' @ host @ tail \<and> 0x2F \<notin> set scheme \<and>
              0x2F \<notin> set host \<and> (tail = [] \<or> hd tail = 0x2F)"
    then obtain ps where "split_on 0x2F (scheme @ str ''//'' @ host @ tail) = scheme # [] # host # ps"
      using split_on_host [of scheme host tail] by blast
    with a show "split_on 0x2F u ! 2 = host"
      by simp
  qed
  have z': "zipName up =
             map (\<lambda>c. if c = 0x2E then 0x5F else c) (split_on 0x2F u ! 2) @ str ''_'' @
             map (\<lambda>c. if c = 0x3A \<or> c = 0x2E then 0x2D else c) t @ str ''.zip''"
    unfolding z d' safe_timestamp_map ..
  from d d' have dom: "domain u =
             Inr (map (\<lambda>c. if c = 0x2E then 0x5F else c) (split_on 0x2F u ! 2))"
    by simp
  show ?thesis
    using u len dom host l z' dl t
    by (intro exI [of _ u] exI [of _ t] exI [of _ up]) blast
qed

lemma run_first_attempts:
  assumes s: "step_log s step1 = None" "step_log s step2 = None" "step_log s step3 = None"
      "step_log s step4 = None" "step_log s step5 = None"
    and b1: "get_sitemap_url payload = (Inr u, e1)"
    and b2: "fetch_and_parse (fetch_sitemap (io_at w 0)) u = (Inr us, e2)"
    and b3: "scrape_pages (fetch_scrape (io_at w 0)) us = (Inr ps, e3)"
    and b4: "zip_and_upload (io_at w 0) u ps = (Inr up, e4)"
  shows "\<exists>s'. run w payload s = (Inr \<lparr>downloadUrl = public_prefix @ zipName up\<rparr>, s') \<and>
           trace s' = trace s @ Invoke step1 # e1 @ Invoke step2 # e2 @ Invoke step3 # e3 @
                      Invoke step4 # e4 @ [Invoke step5]"
proof -
  have d: "step1 \<noteq> step2" "step1 \<noteq> step3" "step1 \<noteq> step4" "step1 \<noteq> step5"
    "step2 \<noteq> step3" "step2 \<noteq> step4" "step2 \<noteq> step5" "step3 \<noteq> step4" "step3 \<noteq> step5"
    "step4 \<noteq> step5"
    using step_names_distinct by auto
  let ?lim = "default_retries w"
  define s1 where "s1 = s\<lparr>step_log := (step_log s)(step1 \<mapsto> VUrl u), trace := trace s @ Invoke step1 # e1\<rparr>"
  define s2 where "s2 = s1\<lparr>step_log := (step_log s1)(step2 \<mapsto> VUrls us), trace := trace s1 @ Invoke step2 # e2\<rparr>"
  define s3 where "s3 = s2\<lparr>step_log := (step_log s2)(step3 \<mapsto> VPages ps), trace := trace s2 @ Invoke step3 # e3\<rparr>"
  define s4 where "s4 = s3\<lparr>step_log := (step_log s3)(step4 \<mapsto> VUpload up), trace := trace s3 @ Invoke step4 # e4\<rparr>"
  define s5 where "s5 = s4\<lparr>step_log := (step_log s4)(step5 \<mapsto> VResult \<lparr>downloadUrl = public_prefix @ zipName up\<rparr>),
     trace := trace s4 @ Invoke step5 # []\<rparr>"
  have 1: "step_do ?lim step1 VUrl unUrl (\<lambda>k. get_sitemap_url payload) s = (Inr u, s1)"
    unfolding s1_def using s(1) b1 by (rule step_do_fresh_first)
  have "step_log s1 step2 = None"
    using s d by (simp add: s1_def)
  then have 2: "step_do 0 step2 VUrls unUrls (\<lambda>k. fetch_and_parse (fetch_sitemap (io_at w k)) u) s1 = (Inr us, s2)"
    unfolding s2_def using b2 by (rule step_do_fresh_first)
  have "step_log s2 step3 = None"
    using s d by (simp add: s1_def s2_def)
  then have 3: "step_do ?lim step3 VPages unPages (\<lambda>k. scrape_pages (fetch_scrape (io_at w k)) us) s2 = (Inr ps, s3)"
    unfolding s3_def using b3 by (rule step_do_fresh_first)
  have "step_log s3 step4 = None"
    using s d by (simp add: s1_def s2_def s3_def)
  then have 4: "step_do ?lim step4 VUpload unUpload (\<lambda>k. zip_and_upload (io_at w k) u ps) s3 = (Inr up, s4)"
    unfolding s4_def using b4 by (rule step_do_fresh_first)
  have "step_log s4 step5 = None"
    using s d by (simp add: s1_def s2_def s3_def s4_def)
  moreover have "generate_result up = (Inr \<lparr>downloadUrl = public_prefix @ zipName up\<rparr>, [])"
    by (simp add: generate_result_def wrap_def)
  ultimately have 5: "step_do ?lim step5 VResult unResult (\<lambda>k. generate_result up) s4 =
      (Inr \<lparr>downloadUrl = public_prefix @ zipName up\<rparr>, s5)"
    unfolding s5_def by (rule step_do_fresh_first)
  have "run w payload s = (Inr \<lparr>downloadUrl = public_prefix @ zipName up\<rparr>, s5)"
    by (simp add: run_def and_then_def 1 2 3 4 5)
  moreover have "trace s5 = trace s @ Invoke step1 # e1 @ Invoke step2 # e2 @ Invoke step3 # e3 @
                      Invoke step4 # e4 @ [Invoke step5]"
    by (simp add: s1_def s2_def s3_def s4_def s5_def)
  ultimately show ?thesis by blast
qed

lemma example_run:
  "\<exists>s'. run example_world (example_payload (str ''https://example.com/sitemap.xml'')) init =
          (Inr \<lparr>downloadUrl = public_prefix @ str ''example_com_2025-01-02T03-04-05-678Z.zip''\<rparr>, s') \<and>
        trace s' =
          [Invoke step1, Invoke step2, SitemapGet (str ''https://example.com/sitemap.xml''),
           Invoke step3, ScrapePost (str ''https://example.com/a''), Warn (str ''https://example.com/a''),
           ScrapePost (str ''https://example.com/b''), Delay 3000,
           Invoke step4, BucketPut (str ''example_com_2025-01-02T03-04-05-678Z.zip''),
           Invoke step5]"
proof -
  let ?u = "str ''https://example.com/sitemap.xml''"
  let ?us = "[str ''https://example.com/a'', str ''https://example.com/b'']"
  let ?ps = "[\<lparr>fileName = str ''b.md'', content = str ''# B''\<rparr>]"
  let ?zip = "str ''example_com_2025-01-02T03-04-05-678Z.zip''"
  have b1: "get_sitemap_url (example_payload ?u) = (Inr ?u, [])"
    by (simp add: get_sitemap_url_def example_payload_def wrap_def)
  have l: "locUrls example_sitemap = ?us"
    by (simp add: example_sitemap_def locUrls_def loc_match_def is_line_terminator_def)
  have a: "aTags example_sitemap = []"
    by (simp add: example_sitemap_def aTags_def a_match_def)
  have b2: "fetch_and_parse (fetch_sitemap (io_at example_world 0)) ?u = (Inr ?us, [SitemapGet ?u])"
    by (simp add: fetch_and_parse_def example_world_def example_io_def example_fetch_def ok_def
        parse_sitemap_def l a new_Set_def set_add_def wrap_def)
  have b3: "scrape_pages (fetch_scrape (io_at example_world 0)) ?us =
      (Inr ?ps, [ScrapePost (str ''https://example.com/a''), Warn (str ''https://example.com/a''),
           ScrapePost (str ''https://example.com/b''), Delay 3000])"
    by (simp add: scrape_pages_def example_world_def example_io_def example_scrape_def ok_def
        wrap_def file_name_def segments_def pop_def)
  have b4: "zip_and_upload (io_at example_world 0) ?u ?ps =
      (Inr \<lparr>zipName = ?zip, files = [str ''b.md''], zip_size = Suc (Suc (Suc 0))\<rparr>,
       [BucketPut ?zip])"
    by (simp add: zip_and_upload_def example_world_def example_io_def zipEntries_def wrap_def
        domain_def safe_timestamp_def replace_chars_def Let_def)
  from run_first_attempts [of init, OF _ _ _ _ _ b1 b2 b3 b4] show ?thesis
    by (simp add: init_def)
qed

theorem archive_download_url_witness:
  "consistent (example_payload (str ''https://example.com/sitemap.xml'')) init \<and>
   (\<exists>s'. run example_world (example_payload (str ''https://example.com/sitemap.xml'')) init =
      (Inr \<lparr>downloadUrl = str ''https://pub-afa698db43a7418f8073ed229786891d.r2.dev/example_com_2025-01-02T03-04-05-678Z.zip''\<rparr>, s'))"
proof -
  let ?p = "example_payload (str ''https://example.com/sitemap.xml'')"
  let ?res = "\<lparr>downloadUrl = public_prefix @ str ''example_com_2025-01-02T03-04-05-678Z.zip''\<rparr>"
  have c: "consistent ?p init"
    by (rule consistent_init)
  from example_run obtain s' where r: "run example_world ?p init = (Inr ?res, s')"
    by blast
  from archive_download_url [OF c r] obtain u t up where
    u: "opt_prop ?p (str ''sitemapUrl'') = Some (JStr u)"
    and "2 < length (split_on 0x2F u)"
    and "domain u = Inr (map (\<lambda>c. if c = 0x2E then 0x5F else c) (split_on 0x2F u ! 2))"
    and h: "\<forall>scheme host tail.
              u = scheme @ str ''//'' @ host @ tail \<and> 0x2F \<notin> set scheme \<and>
              0x2F \<notin> set host \<and> (tail = [] \<or> hd tail = 0x2F)
              \<longrightarrow> split_on 0x2F u ! 2 = host"
    and "step_log s' step4 = Some (VUpload up)"
    and z: "zipName up =
             map (\<lambda>c. if c = 0x2E then 0x5F else c) (split_on 0x2F u ! 2) @ str ''_'' @
             map (\<lambda>c. if c = 0x3A \<or> c = 0x2E then 0x2D else c) t @ str ''.zip''"
    and dl: "downloadUrl ?res = public_prefix @ zipName up"
    and t: "step_log init step4 = None \<longrightarrow>
              (\<exists>k\<le>default_retries example_world. t = now_iso (io_at example_world k) \<and>
                 (\<exists>zipData. bucket_put (io_at example_world k) (zipName up) zipData = None)) \<and>
              BucketPut (zipName up) \<in> set (new_events init s')"
    by (elim exE conjE)
  from u have u': "u = str ''https://example.com/sitemap.xml''"
    by (simp add: example_payload_def)
  from h [rule_format, of "str ''https:''" "str ''example.com''" "str ''/sitemap.xml''"] u'
  have d: "split_on 0x2F u ! 2 = str ''example.com''"
    by simp
  have "step_log init step4 = None"
    by (simp add: init_def)
  with t obtain k where "t = now_iso (io_at example_world k)"
    by blast
  then have t': "t = str ''2025-01-02T03:04:05.678Z''"
    by (simp add: example_world_def example_io_def)
  have "downloadUrl ?res = str ''https://pub-afa698db43a7418f8073ed229786891d.r2.dev/example_com_2025-01-02T03-04-05-678Z.zip''"
    unfolding dl z d t' by (simp add: public_prefix_def)
  then have "?res = \<lparr>downloadUrl = str ''https://pub-afa698db43a7418f8073ed229786891d.r2.dev/example_com_2025-01-02T03-04-05-678Z.zip''\<rparr>"
    by simp
  with c r show ?thesis
    by (intro conjI exI [of _ s']) simp_all
qed

lemma query_run:
  "\<exists>s'. run open_world (example_payload (str ''https://example.com?v=1.2'')) init =
          (Inr \<lparr>downloadUrl = public_prefix @ str ''example_com?v=1_2_2025-01-02T03-04-05-678Z.zip''\<rparr>, s')"
proof -
  let ?u = "str ''https://example.com?v=1.2''"
  let ?us = "[str ''https://example.com/a'', str ''https://example.com/b'']"
  let ?ps = "[\<lparr>fileName = str ''b.md'', content = str ''# B''\<rparr>]"
  let ?zip = "str ''example_com?v=1_2_2025-01-02T03-04-05-678Z.zip''"
  have b1: "get_sitemap_url (example_payload ?u) = (Inr ?u, [])"
    by (simp add: get_sitemap_url_def example_payload_def wrap_def)
  have l: "locUrls example_sitemap = ?us"
    by (simp add: example_sitemap_def locUrls_def loc_match_def is_line_terminator_def)
  have a: "aTags example_sitemap = []"
    by (simp add: example_sitemap_def aTags_def a_match_def)
  have b2: "fetch_and_parse (fetch_sitemap (io_at open_world 0)) ?u = (Inr ?us, [SitemapGet ?u])"
    by (simp add: fetch_and_parse_def open_world_def ok_def
        parse_sitemap_def l a new_Set_def set_add_def wrap_def)
  have b3: "scrape_pages (fetch_scrape (io_at open_world 0)) ?us =
      (Inr ?ps, [ScrapePost (str ''https://example.com/a''), Warn (str ''https://example.com/a''),
           ScrapePost (str ''https://example.com/b''), Delay 3000])"
    by (simp add: scrape_pages_def open_world_def example_io_def example_scrape_def ok_def
        wrap_def file_name_def segments_def pop_def)
  have b4: "zip_and_upload (io_at open_world 0) ?u ?ps =
      (Inr \<lparr>zipName = ?zip, files = [str ''b.md''], zip_size = Suc (Suc (Suc 0))\<rparr>,
       [BucketPut ?zip])"
    by (simp add: zip_and_upload_def open_world_def example_io_def zipEntries_def wrap_def
        domain_def safe_timestamp_def replace_chars_def Let_def)
  from run_first_attempts [of init, OF _ _ _ _ _ b1 b2 b3 b4] show ?thesis
    by (auto simp: init_def)
qed

text \<open>
  Claim C6 as stated fails: the host component of \<^verbatim>\<open>https://example.com?v=1.2\<close> is
  \<^verbatim>\<open>example.com\<close>, and where that URL serves the sitemap the run completes with an archive
  name that starts with \<^verbatim>\<open>example_com?v=1_2\<close>: the query belongs to the third piece.
\<close>

theorem archive_name_not_host:
  "url_host (str ''https://example.com?v=1.2'') = str ''example.com'' \<and>
   fst (run open_world (example_payload (str ''https://example.com?v=1.2'')) init) =
     Inr \<lparr>downloadUrl = str ''https://pub-afa698db43a7418f8073ed229786891d.r2.dev/example_com?v=1_2_2025-01-02T03-04-05-678Z.zip''\<rparr>"
proof -
  have "url_host (str ''https://example.com?v=1.2'') = str ''example.com''"
    by (simp add: url_host_def url_authority_def)
  moreover from query_run have
    "fst (run open_world (example_payload (str ''https://example.com?v=1.2'')) init) =
       Inr \<lparr>downloadUrl = public_prefix @ str ''example_com?v=1_2_2025-01-02T03-04-05-678Z.zip''\<rparr>"
    by auto
  ultimately show ?thesis
    by (simp add: public_prefix_def)
qed

section \<open>Re-execution after a failure\<close>


lemma attempts_first_events: "attempts n k body = (r, es) \<Longrightarrow> set (snd (body k)) \<subseteq> set es"
  by (cases n; cases "body k"; cases "fst (body k)")
    (auto split: prod.splits sum.splits)

lemma step_do_miss_invoke:
  assumes "step_log s name = None" and "step_do limit name enc dec body s = (r, s')"
  shows "Invoke name \<in> set (new_events s s')"
proof -
  let ?b = "\<lambda>k. case body k of (r, es) \<Rightarrow> (r, Invoke name # es)"
  obtain r0 es where a: "attempts limit 0 ?b = (r0, es)"
    by (cases "attempts limit 0 ?b")
  have "Invoke name \<in> set (snd (?b 0))"
    by (simp split: prod.splits)
  with attempts_first_events [OF a] have "Invoke name \<in> set es"
    by blast
  moreover from assms a have "new_events s s' = es"
    by (auto simp: step_do_def new_events_def split: sum.splits)
  ultimately show ?thesis by simp
qed

lemma well_typed_cong: "step_log s' = step_log s \<Longrightarrow> well_typed s' = well_typed s"
  by (simp add: well_typed_def)

lemma replays_from_done: "replays_from 6 s (Inr x, s)"
proof -
  have "\<not> 6 \<le> step_number n" for n
    using step_number_le [of n] by simp
  then show ?thesis
    by (simp add: replays_from_def new_events_def)
qed


lemma replays_from_fail:
  assumes k: "step_number name = k" "0 < k"
    and tr: "trace s1 = trace s @ es1"
    and ev: "\<forall>e\<in>set es1. event_step e = name"
    and inv: "Invoke name \<in> set es1"
    and none: "step_log s name = None"
    and log: "step_log s1 = step_log s"
  shows "replays_from k s (Inl e, s1)"
proof -
  have new: "new_events s s1 = es1"
    by (simp add: new_events_def tr)
  have B: "\<forall>e\<in>set es1. \<forall>m. k \<le> step_number m \<and>
          step_number m < step_number (event_step e) \<longrightarrow> step_log s1 m \<noteq> None"
    using ev k(1) by auto
  have A: "(Invoke n \<in> set es1) =
       (step_log s n = None \<and>
        (\<forall>m. k \<le> step_number m \<and> step_number m < step_number n \<longrightarrow> step_log s1 m \<noteq> None))"
    if n: "k \<le> step_number n" for n
  proof (cases "n = name")
    case True
    with inv none k(1) show ?thesis by auto
  next
    case False
    have "Invoke n \<notin> set es1"
      using ev False by force
    moreover have "step_number n \<noteq> k"
      using False k step_number_inj [of n name] by auto
    then have "k \<le> step_number name \<and> step_number name < step_number n \<and> step_log s1 name = None"
      using n k(1) none log by simp
    ultimately show ?thesis by blast
  qed
  show ?thesis
    unfolding replays_from_def using A B well_typed_cong [OF log]
    by (simp add: new)
qed


lemma replays_from_step:
  assumes k: "step_number name = k" "0 < k"
    and tr: "trace s1 = trace s @ es1"
    and ev: "\<forall>e\<in>set es1. event_step e = name"
    and inv: "Invoke name \<in> set es1 \<longleftrightarrow> step_log s name = None"
    and here: "step_log s1 name \<noteq> None"
    and other: "\<forall>n. n \<noteq> name \<longrightarrow> step_log s1 n = step_log s n"
    and wt: "well_typed s \<longrightarrow> well_typed s1"
    and res: "resumes_from (Suc k) s1 rs"
    and rep: "replays_from (Suc k) s1 rs"
  shows "replays_from k s rs"
proof -
  let ?s' = "snd rs"
  from res obtain es2 where
    tr2: "trace ?s' = trace s1 @ es2"
    and ev2: "\<forall>e\<in>set es2. Suc k \<le> step_number (event_step e)"
    and frame2: "\<forall>n. step_number n < Suc k \<longrightarrow> step_log ?s' n = step_log s1 n"
    unfolding resumes_from_def by blast
  have new1: "new_events s1 ?s' = es2"
    by (simp add: new_events_def tr2)
  have new: "new_events s ?s' = es1 @ es2"
    by (simp add: new_events_def tr tr2)
  note rep' = rep [unfolded replays_from_def new1]
  note prog2 = rep' [THEN conjunct1] and typed2 = rep' [THEN conjunct2]
  have end_name: "step_log ?s' name \<noteq> None"
    using frame2 k(1) here by simp
  have at_k: "m = name" if "step_number m = k" for m
    using that k step_number_inj [of m name] by simp
  have from_k: "step_log ?s' m \<noteq> None"
    if "k \<le> step_number m" and "Suc k \<le> step_number m \<Longrightarrow> step_log ?s' m \<noteq> None" for m
  proof (cases "step_number m = k")
    case True
    with at_k end_name show ?thesis by simp
  next
    case False
    with that show ?thesis by simp
  qed
  have B: "\<forall>e\<in>set (es1 @ es2). \<forall>m. k \<le> step_number m \<and>
          step_number m < step_number (event_step e) \<longrightarrow> step_log ?s' m \<noteq> None"
  proof (intro ballI allI impI)
    fix e m
    assume e: "e \<in> set (es1 @ es2)"
      and m: "k \<le> step_number m \<and> step_number m < step_number (event_step e)"
    from e consider "e \<in> set es1" | "e \<in> set es2" by auto
    then show "step_log ?s' m \<noteq> None"
    proof cases
      case 1
      with ev k(1) m show ?thesis by auto
    next
      case 2
      from m have "k \<le> step_number m" by simp
      then show ?thesis
      proof (rule from_k)
        assume "Suc k \<le> step_number m"
        with prog2 [rule_format, OF 2, of m] m show ?thesis by simp
      qed
    qed
  qed
  have A: "well_typed ?s' \<and>
        (\<forall>n. k \<le> step_number n \<longrightarrow>
           (Invoke n \<in> set (es1 @ es2) \<longleftrightarrow>
              step_log s n = None \<and>
              (\<forall>m. k \<le> step_number m \<and> step_number m < step_number n
                   \<longrightarrow> step_log ?s' m \<noteq> None)))"
    if "well_typed s"
  proof -
    from that wt have wt1: "well_typed s1" by simp
    note t2 = typed2 [THEN mp, OF wt1]
    note wt' = t2 [THEN conjunct1] and iff2 = t2 [THEN conjunct2]
    have "(Invoke n \<in> set (es1 @ es2)) =
              (step_log s n = None \<and>
              (\<forall>m. k \<le> step_number m \<and> step_number m < step_number n
                   \<longrightarrow> step_log ?s' m \<noteq> None))"
      if n: "k \<le> step_number n" for n
    proof (cases "step_number n = k")
      case True
      then have nn: "n = name" by (rule at_k)
      have "Invoke name \<notin> set es2"
        using ev2 k(1) by force
      moreover have "\<forall>m. k \<le> step_number m \<and> step_number m < step_number name
                   \<longrightarrow> step_log ?s' m \<noteq> None"
        using k(1) by auto
      ultimately show ?thesis
        unfolding nn using inv by simp
    next
      case False
      with n have n': "Suc k \<le> step_number n" by simp
      from False k(1) have ne: "n \<noteq> name" by auto
      have "Invoke n \<notin> set es1"
        using ev ne by force
      then have "Invoke n \<in> set (es1 @ es2) \<longleftrightarrow> Invoke n \<in> set es2"
        by simp
      also have "\<dots> \<longleftrightarrow> step_log s1 n = None \<and>
              (\<forall>m. Suc k \<le> step_number m \<and> step_number m < step_number n
                   \<longrightarrow> step_log ?s' m \<noteq> None)"
        using iff2 n' by blast
      also have "\<dots> \<longleftrightarrow> step_log s n = None \<and>
              (\<forall>m. k \<le> step_number m \<and> step_number m < step_number n
                   \<longrightarrow> step_log ?s' m \<noteq> None)"
      proof -
        have 1: "step_log s1 n = step_log s n"
          using other ne by simp
        have 2: "(\<forall>m. Suc k \<le> step_number m \<and> step_number m < step_number n
                   \<longrightarrow> step_log ?s' m \<noteq> None) \<longleftrightarrow>
                 (\<forall>m. k \<le> step_number m \<and> step_number m < step_number n
                   \<longrightarrow> step_log ?s' m \<noteq> None)"
        proof
          assume h: "\<forall>m. Suc k \<le> step_number m \<and> step_number m < step_number n
                   \<longrightarrow> step_log ?s' m \<noteq> None"
          show "\<forall>m. k \<le> step_number m \<and> step_number m < step_number n
                   \<longrightarrow> step_log ?s' m \<noteq> None"
          proof (intro allI impI)
            fix m assume m: "k \<le> step_number m \<and> step_number m < step_number n"
            then have "k \<le> step_number m" by simp
            then show "step_log ?s' m \<noteq> None"
            proof (rule from_k)
              assume "Suc k \<le> step_number m"
              with h [rule_format, of m] m show ?thesis by simp
            qed
          qed
        next
          assume "\<forall>m. k \<le> step_number m \<and> step_number m < step_number n
                   \<longrightarrow> step_log ?s' m \<noteq> None"
          then show "\<forall>m. Suc k \<le> step_number m \<and> step_number m < step_number n
                   \<longrightarrow> step_log ?s' m \<noteq> None"
            by (simp add: Suc_le_eq less_imp_le)
        qed
        show ?thesis
          unfolding 1 2 ..
      qed
      finally show ?thesis .
    qed
    then have "\<forall>n. k \<le> step_number n \<longrightarrow>
           (Invoke n \<in> set (es1 @ es2) \<longleftrightarrow>
              step_log s n = None \<and>
              (\<forall>m. k \<le> step_number m \<and> step_number m < step_number n
                   \<longrightarrow> step_log ?s' m \<noteq> None))"
      by (intro allI impI)
    with wt' show ?thesis by (rule conjI)
  qed
  show ?thesis
    unfolding replays_from_def new
  proof (rule conjI)
    show "\<forall>e\<in>set (es1 @ es2). \<forall>m. k \<le> step_number m \<and>
          step_number m < step_number (event_step e) \<longrightarrow> step_log (snd rs) m \<noteq> None"
      by (rule B)
  next
    show "well_typed s \<longrightarrow>
        well_typed (snd rs) \<and>
        (\<forall>n. k \<le> step_number n \<longrightarrow>
           (Invoke n \<in> set (es1 @ es2) \<longleftrightarrow>
              step_log s n = None \<and>
              (\<forall>m. k \<le> step_number m \<and> step_number m < step_number n
                   \<longrightarrow> step_log (snd rs) m \<noteq> None)))"
      by (rule impI) (rule A)
  qed
qed

lemma well_typed_dec:
  "well_typed s \<Longrightarrow> step_log s step1 = Some v \<Longrightarrow> unUrl v \<noteq> None"
  "well_typed s \<Longrightarrow> step_log s step2 = Some v \<Longrightarrow> unUrls v \<noteq> None"
  "well_typed s \<Longrightarrow> step_log s step3 = Some v \<Longrightarrow> unPages v \<noteq> None"
  "well_typed s \<Longrightarrow> step_log s step4 = Some v \<Longrightarrow> unUpload v \<noteq> None"
  "well_typed s \<Longrightarrow> step_log s step5 = Some v \<Longrightarrow> unResult v \<noteq> None"
  by (simp_all add: well_typed_def)

lemma well_typed_enc:
  "well_typed s \<Longrightarrow> step_log s1 = (step_log s)(step1 \<mapsto> VUrl u) \<Longrightarrow> well_typed s1"
  "well_typed s \<Longrightarrow> step_log s1 = (step_log s)(step2 \<mapsto> VUrls us) \<Longrightarrow> well_typed s1"
  "well_typed s \<Longrightarrow> step_log s1 = (step_log s)(step3 \<mapsto> VPages ps) \<Longrightarrow> well_typed s1"
  "well_typed s \<Longrightarrow> step_log s1 = (step_log s)(step4 \<mapsto> VUpload up) \<Longrightarrow> well_typed s1"
  "well_typed s \<Longrightarrow> step_log s1 = (step_log s)(step5 \<mapsto> VResult res) \<Longrightarrow> well_typed s1"
  using step_names_distinct by (auto simp: well_typed_def)

lemma and_then_replays:
  assumes k: "step_number name = k" "0 < k" and k': "k' = Suc k"
    and body: "\<And>j e. e \<in> set (snd (body j)) \<Longrightarrow> event_step e = name"
    and dec: "\<And>v. well_typed s \<Longrightarrow> step_log s name = Some v \<Longrightarrow> dec v \<noteq> None"
    and enc: "\<And>x s1. well_typed s \<Longrightarrow> step_log s1 = (step_log s)(name \<mapsto> enc x) \<Longrightarrow> well_typed s1"
    and f_res: "\<And>x s1. resumes_from k' s1 (f x s1)"
    and f_rep: "\<And>x s1. replays_from k' s1 (f x s1)"
  shows "replays_from k s (and_then (step_do limit name enc dec body) f s)"
proof (cases "step_log s name")
  case (Some v)
  note hit = step_do_hit [OF Some, of limit enc dec body]
  show ?thesis
  proof (cases "dec v")
    case None
    with hit have eq: "and_then (step_do limit name enc dec body) f s = (Inl corrupt_log_msg, s)"
      by (simp add: and_then_def)
    from None dec [OF _ Some] have "\<not> well_typed s"
      by auto
    then show ?thesis
      unfolding eq by (simp add: replays_from_def new_events_def)
  next
    case x: (Some x)
    with hit have eq: "and_then (step_do limit name enc dec body) f s = f x s"
      by (simp add: and_then_def)
    show ?thesis
      unfolding eq
    proof (rule replays_from_step [where name = name and ?s1.0 = s and ?es1.0 = "[]"])
      show "resumes_from (Suc k) s (f x s)"
        using f_res [where x = x and ?s1.0 = s] k' by simp
      show "replays_from (Suc k) s (f x s)"
        using f_rep [where x = x and ?s1.0 = s] k' by simp
    qed (simp_all add: k Some)
  qed
next
  case None
  obtain r s1 where sd: "step_do limit name enc dec body s = (r, s1)"
    by (cases "step_do limit name enc dec body s")
  from step_do_miss [OF None sd] obtain es where
    tr: "trace s1 = trace s @ es"
    and ev': "\<forall>e\<in>set es. e = Invoke name \<or> (\<exists>j\<le>limit. e \<in> set (snd (body j)))"
    and log: "step_log s1 = (case r of Inl e \<Rightarrow> step_log s | Inr x \<Rightarrow> (step_log s)(name \<mapsto> enc x))"
    by blast
  have ev: "\<forall>e\<in>set es. event_step e = name"
    using ev' body by auto
  have "new_events s s1 = es"
    by (simp add: new_events_def tr)
  with step_do_miss_invoke [OF None sd] have inv: "Invoke name \<in> set es"
    by simp
  show ?thesis
  proof (cases r)
    case (Inl e)
    with sd have eq: "and_then (step_do limit name enc dec body) f s = (Inl e, s1)"
      by (simp add: and_then_def)
    from Inl log have "step_log s1 = step_log s"
      by simp
    with k tr ev inv None show ?thesis
      unfolding eq by (rule replays_from_fail)
  next
    case (Inr x)
    with sd have eq: "and_then (step_do limit name enc dec body) f s = f x s1"
      by (simp add: and_then_def)
    from Inr log have log1: "step_log s1 = (step_log s)(name \<mapsto> enc x)"
      by simp
    show ?thesis
      unfolding eq
    proof (rule replays_from_step [where name = name and ?s1.0 = s1 and ?es1.0 = es])
      show "resumes_from (Suc k) s1 (f x s1)"
        using f_res [where x = x and ?s1.0 = s1] k' by simp
      show "replays_from (Suc k) s1 (f x s1)"
        using f_rep [where x = x and ?s1.0 = s1] k' by simp
      show "well_typed s \<longrightarrow> well_typed s1"
        using enc [OF _ log1] by simp
    qed (simp_all add: k tr ev inv None log1)
  qed
qed

lemma run_replays: "replays_from 1 s (run w payload s)"
proof -
  have r5: "resumes_from 5 s1 (step_do limit step5 VResult unResult (\<lambda>k. generate_result up) s1)"
    for s1 limit up
    using and_then_resumes [where name = step5 and k = 5 and k' = 6
        and body = "\<lambda>k. generate_result up" and f = "\<lambda>x s. (Inr x, s)"
        and s = s1 and limit = limit and enc = VResult and dec = unResult]
    by (simp add: and_then_return step_number_steps generate_result_events resumes_from_done)
  have r4: "resumes_from 4 s1
      (and_then (step_do limit step4 VUpload unUpload (\<lambda>k. zip_and_upload (io_at w k) u ps))
         (\<lambda>up. step_do limit5 step5 VResult unResult (\<lambda>k. generate_result up)) s1)"
    for s1 limit limit5 u ps
    by (rule and_then_resumes [where k = 4 and k' = 5])
      (simp_all add: step_number_steps zip_and_upload_events r5)
  have r3: "resumes_from 3 s1
      (and_then (step_do limit step3 VPages unPages (\<lambda>k. scrape_pages (fetch_scrape (io_at w k)) us))
         (\<lambda>ps. and_then (step_do limit4 step4 VUpload unUpload (\<lambda>k. zip_and_upload (io_at w k) u ps))
            (\<lambda>up. step_do limit5 step5 VResult unResult (\<lambda>k. generate_result up))) s1)"
    for s1 limit limit4 limit5 u us
    by (rule and_then_resumes [where k = 3 and k' = 4])
      (simp_all add: step_number_steps scrape_pages_events r4)
  have r2: "resumes_from 2 s1
      (and_then (step_do limit2 step2 VUrls unUrls (\<lambda>k. fetch_and_parse (fetch_sitemap (io_at w k)) u))
         (\<lambda>us. and_then (step_do limit step3 VPages unPages (\<lambda>k. scrape_pages (fetch_scrape (io_at w k)) us))
         (\<lambda>ps. and_then (step_do limit4 step4 VUpload unUpload (\<lambda>k. zip_and_upload (io_at w k) u ps))
            (\<lambda>up. step_do limit5 step5 VResult unResult (\<lambda>k. generate_result up)))) s1)"
    for s1 limit limit2 limit4 limit5 u
    by (rule and_then_resumes [where k = 2 and k' = 3])
      (simp_all add: step_number_steps fetch_and_parse_events r3)
  have 5: "replays_from 5 s1 (step_do limit step5 VResult unResult (\<lambda>k. generate_result up) s1)"
    for s1 limit up
  proof -
    have "replays_from 5 s1
        (and_then (step_do limit step5 VResult unResult (\<lambda>k. generate_result up))
           (\<lambda>x s. (Inr x, s)) s1)"
    proof (rule and_then_replays [where k = 5 and k' = 6])
      show "\<And>v. well_typed s1 \<Longrightarrow> step_log s1 step5 = Some v \<Longrightarrow> unResult v \<noteq> None"
        by (rule well_typed_dec)
      show "\<And>x s2. well_typed s1 \<Longrightarrow> step_log s2 = (step_log s1)(step5 \<mapsto> VResult x) \<Longrightarrow> well_typed s2"
        by (rule well_typed_enc)
    qed (simp_all add: step_number_steps generate_result_events resumes_from_done replays_from_done)
    then show ?thesis
      by (simp add: and_then_return)
  qed
  have 4: "replays_from 4 s1
      (and_then (step_do limit step4 VUpload unUpload (\<lambda>k. zip_and_upload (io_at w k) u ps))
         (\<lambda>up. step_do limit5 step5 VResult unResult (\<lambda>k. generate_result up)) s1)"
    for s1 limit limit5 u ps
  proof (rule and_then_replays [where k = 4 and k' = 5])
    show "\<And>v. well_typed s1 \<Longrightarrow> step_log s1 step4 = Some v \<Longrightarrow> unUpload v \<noteq> None"
      by (rule well_typed_dec)
    show "\<And>x s2. well_typed s1 \<Longrightarrow> step_log s2 = (step_log s1)(step4 \<mapsto> VUpload x) \<Longrightarrow> well_typed s2"
      by (rule well_typed_enc)
  qed (simp_all add: step_number_steps zip_and_upload_events r5 5)
  have 3: "replays_from 3 s1
      (and_then (step_do limit step3 VPages unPages (\<lambda>k. scrape_pages (fetch_scrape (io_at w k)) us))
         (\<lambda>ps. and_then (step_do limit4 step4 VUpload unUpload (\<lambda>k. zip_and_upload (io_at w k) u ps))
            (\<lambda>up. step_do limit5 step5 VResult unResult (\<lambda>k. generate_result up))) s1)"
    for s1 limit limit4 limit5 u us
  proof (rule and_then_replays [where k = 3 and k' = 4])
    show "\<And>v. well_typed s1 \<Longrightarrow> step_log s1 step3 = Some v \<Longrightarrow> unPages v \<noteq> None"
      by (rule well_typed_dec)
    show "\<And>x s2. well_typed s1 \<Longrightarrow> step_log s2 = (step_log s1)(step3 \<mapsto> VPages x) \<Longrightarrow> well_typed s2"
      by (rule well_typed_enc)
  qed (simp_all add: step_number_steps scrape_pages_events r4 4)
  have 2: "replays_from 2 s1
      (and_then (step_do limit2 step2 VUrls unUrls (\<lambda>k. fetch_and_parse (fetch_sitemap (io_at w k)) u))
         (\<lambda>us. and_then (step_do limit step3 VPages unPages (\<lambda>k. scrape_pages (fetch_scrape (io_at w k)) us))
         (\<lambda>ps. and_then (step_do limit4 step4 VUpload unUpload (\<lambda>k. zip_and_upload (io_at w k) u ps))
            (\<lambda>up. step_do limit5 step5 VResult unResult (\<lambda>k. generate_result up)))) s1)"
    for s1 limit limit2 limit4 limit5 u
  proof (rule and_then_replays [where k = 2 and k' = 3])
    show "\<And>v. well_typed s1 \<Longrightarrow> step_log s1 step2 = Some v \<Longrightarrow> unUrls v \<noteq> None"
      by (rule well_typed_dec)
    show "\<And>x s2. well_typed s1 \<Longrightarrow> step_log s2 = (step_log s1)(step2 \<mapsto> VUrls x) \<Longrightarrow> well_typed s2"
      by (rule well_typed_enc)
  qed (simp_all add: step_number_steps fetch_and_parse_events r3 3)
  show ?thesis
    unfolding run_def
  proof (rule and_then_replays [where k = 1 and k' = 2])
    show "\<And>v. well_typed s \<Longrightarrow> step_log s step1 = Some v \<Longrightarrow> unUrl v \<noteq> None"
      by (rule well_typed_dec)
    show "\<And>x s2. well_typed s \<Longrightarrow> step_log s2 = (step_log s)(step1 \<mapsto> VUrl x) \<Longrightarrow> well_typed s2"
      by (rule well_typed_enc)
  qed (simp_all add: step_number_steps get_sitemap_url_events r2 2)
qed

lemma run_result_committed:
  assumes "run w payload s = (Inr res, s')"
  shows "step_log s' step5 = Some (VResult res)"
  using assms unfolding run_def
  apply (elim and_then_InrE)
  apply (drule step_do_Inr [where name = step5, OF _ unResult_VResult])
   apply assumption
  apply simp
  done

lemma step_do_fresh_twice:
  assumes "step_log s name = None" and "body 0 = (Inl e0, es0)" and "body (Suc 0) = (Inl e1, es1)"
  shows "step_do (Suc 0) name enc dec body s =
           (Inl e1, s\<lparr>trace := trace s @ Invoke name # es0 @ Invoke name # es1\<rparr>)"
  using assms by (simp add: step_do_def)

lemma run_scrape_fails_twice:
  assumes s: "step_log s step1 = None" "step_log s step2 = None" "step_log s step3 = None"
    and lim: "default_retries w = Suc 0"
    and b1: "get_sitemap_url payload = (Inr u, e1)"
    and b2: "fetch_and_parse (fetch_sitemap (io_at w 0)) u = (Inr us, e2)"
    and b3: "scrape_pages (fetch_scrape (io_at w 0)) us = (Inl msg0, e3)"
    and b3': "scrape_pages (fetch_scrape (io_at w (Suc 0))) us = (Inl msg, e3')"
  shows "run w payload s =
           (Inl msg, \<lparr>step_log = (step_log s)(step1 \<mapsto> VUrl u, step2 \<mapsto> VUrls us),
                      trace = trace s @ Invoke step1 # e1 @ Invoke step2 # e2 @
                              Invoke step3 # e3 @ Invoke step3 # e3'\<rparr>)"
proof -
  have d: "step1 \<noteq> step2" "step1 \<noteq> step3" "step2 \<noteq> step3"
    using step_names_distinct by auto
  define s1 where "s1 = s\<lparr>step_log := (step_log s)(step1 \<mapsto> VUrl u), trace := trace s @ Invoke step1 # e1\<rparr>"
  define s2 where "s2 = s1\<lparr>step_log := (step_log s1)(step2 \<mapsto> VUrls us), trace := trace s1 @ Invoke step2 # e2\<rparr>"
  define s3 where "s3 = s2\<lparr>trace := trace s2 @ Invoke step3 # e3 @ Invoke step3 # e3'\<rparr>"
  have 1: "step_do (Suc 0) step1 VUrl unUrl (\<lambda>k. get_sitemap_url payload) s = (Inr u, s1)"
    unfolding s1_def using s(1) b1 by (rule step_do_fresh_first)
  have "step_log s1 step2 = None"
    using s d by (simp add: s1_def)
  then have 2: "step_do 0 step2 VUrls unUrls (\<lambda>k. fetch_and_parse (fetch_sitemap (io_at w k)) u) s1 = (Inr us, s2)"
    unfolding s2_def using b2 by (rule step_do_fresh_first)
  have "step_log s2 step3 = None"
    using s d by (simp add: s1_def s2_def)
  then have 3: "step_do (Suc 0) step3 VPages unPages (\<lambda>k. scrape_pages (fetch_scrape (io_at w k)) us) s2 = (Inl msg, s3)"
    unfolding s3_def using b3 b3' by (rule step_do_fresh_twice)
  have "run w payload s = (Inl msg, s3)"
    by (simp add: run_def and_then_def lim 1 2 3)
  moreover have "s3 = \<lparr>step_log = (step_log s)(step1 \<mapsto> VUrl u, step2 \<mapsto> VUrls us),
                      trace = trace s @ Invoke step1 # e1 @ Invoke step2 # e2 @
                              Invoke step3 # e3 @ Invoke step3 # e3'\<rparr>"
    by (simp add: s1_def s2_def s3_def)
  ultimately show ?thesis by simp
qed

lemma run_from_third:
  assumes s: "step_log s step1 = Some (VUrl u)" "step_log s step2 = Some (VUrls us)"
      "step_log s step3 = None" "step_log s step4 = None" "step_log s step5 = None"
    and b3: "scrape_pages (fetch_scrape (io_at w 0)) us = (Inr ps, e3)"
    and b4: "zip_and_upload (io_at w 0) u ps = (Inr up, e4)"
  shows "\<exists>s'. run w payload s = (Inr \<lparr>downloadUrl = public_prefix @ zipName up\<rparr>, s') \<and>
           trace s' = trace s @ Invoke step3 # e3 @ Invoke step4 # e4 @ [Invoke step5]"
proof -
  have d: "step3 \<noteq> step4" "step3 \<noteq> step5" "step4 \<noteq> step5"
    using step_names_distinct by auto
  let ?lim = "default_retries w"
  define s3 where "s3 = s\<lparr>step_log := (step_log s)(step3 \<mapsto> VPages ps), trace := trace s @ Invoke step3 # e3\<rparr>"
  define s4 where "s4 = s3\<lparr>step_log := (step_log s3)(step4 \<mapsto> VUpload up), trace := trace s3 @ Invoke step4 # e4\<rparr>"
  define s5 where "s5 = s4\<lparr>step_log := (step_log s4)(step5 \<mapsto> VResult \<lparr>downloadUrl = public_prefix @ zipName up\<rparr>),
     trace := trace s4 @ Invoke step5 # []\<rparr>"
  have 1: "step_do ?lim step1 VUrl unUrl (\<lambda>k. get_sitemap_url payload) s = (Inr u, s)"
    using step_do_hit [OF s(1), of ?lim VUrl unUrl] by simp
  have 2: "step_do 0 step2 VUrls unUrls (\<lambda>k. fetch_and_parse (fetch_sitemap (io_at w k)) u) s = (Inr us, s)"
    using step_do_hit [OF s(2), of 0 VUrls unUrls] by simp
  have 3: "step_do ?lim step3 VPages unPages (\<lambda>k. scrape_pages (fetch_scrape (io_at w k)) us) s = (Inr ps, s3)"
    unfolding s3_def using s(3) b3 by (rule step_do_fresh_first)
  have "step_log s3 step4 = None"
    using s d by (simp add: s3_def)
  then have 4: "step_do ?lim step4 VUpload unUpload (\<lambda>k. zip_and_upload (io_at w k) u ps) s3 = (Inr up, s4)"
    unfolding s4_def using b4 by (rule step_do_fresh_first)
  have "step_log s4 step5 = None"
    using s d by (simp add: s3_def s4_def)
  moreover have "generate_result up = (Inr \<lparr>downloadUrl = public_prefix @ zipName up\<rparr>, [])"
    by (simp add: generate_result_def wrap_def)
  ultimately have 5: "step_do ?lim step5 VResult unResult (\<lambda>k. generate_result up) s4 =
      (Inr \<lparr>downloadUrl = public_prefix @ zipName up\<rparr>, s5)"
    unfolding s5_def by (rule step_do_fresh_first)
  have "run w payload s = (Inr \<lparr>downloadUrl = public_prefix @ zipName up\<rparr>, s5)"
    by (simp add: run_def and_then_def 1 2 3 4 5)
  moreover have "trace s5 = trace s @ Invoke step3 # e3 @ Invoke step4 # e4 @ [Invoke step5]"
    by (simp add: s3_def s4_def s5_def)
  ultimately show ?thesis by blast
qed

lemma interrupted_run:
  "run failing_world (example_payload (str ''https://example.com/sitemap.xml'')) init =
     (Inl (str ''Scrape Pages failed: fetch failed''),
      \<lparr>step_log = [step1 \<mapsto> VUrl (str ''https://example.com/sitemap.xml''),
                   step2 \<mapsto> VUrls [str ''https://example.com/a'', str ''https://example.com/b'']],
       trace = [Invoke step1, Invoke step2, SitemapGet (str ''https://example.com/sitemap.xml''),
                Invoke step3, ScrapePost (str ''https://example.com/a''), Delay 3000,
                ScrapePost (str ''https://example.com/b''),
                Invoke step3, ScrapePost (str ''https://example.com/a''), Delay 3000,
                ScrapePost (str ''https://example.com/b'')]\<rparr>)"
proof -
  let ?u = "str ''https://example.com/sitemap.xml''"
  let ?us = "[str ''https://example.com/a'', str ''https://example.com/b'']"
  let ?e3 = "[ScrapePost (str ''https://example.com/a''), Delay 3000,
              ScrapePost (str ''https://example.com/b'')]"
  have b1: "get_sitemap_url (example_payload ?u) = (Inr ?u, [])"
    by (simp add: get_sitemap_url_def example_payload_def wrap_def)
  have l: "locUrls example_sitemap = ?us"
    by (simp add: example_sitemap_def locUrls_def loc_match_def is_line_terminator_def)
  have a: "aTags example_sitemap = []"
    by (simp add: example_sitemap_def aTags_def a_match_def)
  have b2: "fetch_and_parse (fetch_sitemap (io_at failing_world 0)) ?u = (Inr ?us, [SitemapGet ?u])"
    by (simp add: fetch_and_parse_def failing_world_def example_io_def example_fetch_def ok_def
        parse_sitemap_def l a new_Set_def set_add_def wrap_def)
  have b3: "scrape_pages (fetch_scrape (io_at failing_world k)) ?us =
      (Inl (str ''Scrape Pages failed: fetch failed''), ?e3)" for k
    by (simp add: scrape_pages_def failing_world_def example_io_def flaky_scrape_def ok_def
        wrap_def file_name_def segments_def pop_def)
  have "default_retries failing_world = Suc 0"
    by (simp add: failing_world_def)
  from run_scrape_fails_twice [of init, OF _ _ _ this b1 b2 b3 b3] show ?thesis
    by (simp add: init_def)
qed

lemma interrupted_state:
  "interrupted =
      \<lparr>step_log = [step1 \<mapsto> VUrl (str ''https://example.com/sitemap.xml''),
                   step2 \<mapsto> VUrls [str ''https://example.com/a'', str ''https://example.com/b'']],
       trace = [Invoke step1, Invoke step2, SitemapGet (str ''https://example.com/sitemap.xml''),
                Invoke step3, ScrapePost (str ''https://example.com/a''), Delay 3000,
                ScrapePost (str ''https://example.com/b''),
                Invoke step3, ScrapePost (str ''https://example.com/a''), Delay 3000,
                ScrapePost (str ''https://example.com/b'')]\<rparr>"
  unfolding interrupted_def interrupted_run by simp

lemma interrupted_log:
  "step_log interrupted step1 = Some (VUrl (str ''https://example.com/sitemap.xml''))"
  "step_log interrupted step2 =
     Some (VUrls [str ''https://example.com/a'', str ''https://example.com/b''])"
  "step_log interrupted step3 = None" "step_log interrupted step4 = None"
  "step_log interrupted step5 = None"
  using step_names_distinct by (auto simp: interrupted_state)

lemma well_typed_interrupted: "well_typed interrupted"
  by (simp add: well_typed_def interrupted_log)

lemma resumed_run:
  "fst (run example_world (example_payload (str ''https://example.com/sitemap.xml''))
          interrupted) =
     Inr \<lparr>downloadUrl = public_prefix @ str ''example_com_2025-01-02T03-04-05-678Z.zip''\<rparr> \<and>
   new_events interrupted completed =
     [Invoke step3, ScrapePost (str ''https://example.com/a''), Warn (str ''https://example.com/a''),
      ScrapePost (str ''https://example.com/b''), Delay 3000,
      Invoke step4, BucketPut (str ''example_com_2025-01-02T03-04-05-678Z.zip''),
      Invoke step5]"
proof -
  let ?u = "str ''https://example.com/sitemap.xml''"
  let ?us = "[str ''https://example.com/a'', str ''https://example.com/b'']"
  let ?ps = "[\<lparr>fileName = str ''b.md'', content = str ''# B''\<rparr>]"
  let ?zip = "str ''example_com_2025-01-02T03-04-05-678Z.zip''"
  have b3: "scrape_pages (fetch_scrape (io_at example_world 0)) ?us =
      (Inr ?ps, [ScrapePost (str ''https://example.com/a''), Warn (str ''https://example.com/a''),
           ScrapePost (str ''https://example.com/b''), Delay 3000])"
    by (simp add: scrape_pages_def example_world_def example_io_def example_scrape_def ok_def
        wrap_def file_name_def segments_def pop_def)
  have b4: "zip_and_upload (io_at example_world 0) ?u ?ps =
      (Inr \<lparr>zipName = ?zip, files = [str ''b.md''], zip_size = Suc (Suc (Suc 0))\<rparr>,
       [BucketPut ?zip])"
    by (simp add: zip_and_upload_def example_world_def example_io_def zipEntries_def wrap_def
        domain_def safe_timestamp_def replace_chars_def Let_def)
  from run_from_third [OF interrupted_log b3 b4,
      of "example_payload (str ''https://example.com/sitemap.xml'')"]
  obtain s' where
    r: "run example_world (example_payload ?u) interrupted =
          (Inr \<lparr>downloadUrl = public_prefix @ ?zip\<rparr>, s')"
    and t: "trace s' = trace interrupted @
          Invoke step3 # [ScrapePost (str ''https://example.com/a''), Warn (str ''https://example.com/a''),
           ScrapePost (str ''https://example.com/b''), Delay 3000] @ Invoke step4 # [BucketPut ?zip] @
          [Invoke step5]"
    by auto
  from r have "completed = s'"
    by (simp add: completed_def)
  with r t show ?thesis
    by (simp add: new_events_def)
qed

text \<open>
  Claim C1, as amended. Re-executing the workflow from any state of the log, as after a crash
  or a failed run: every result committed before is still committed under its step's name
  afterwards; the run only adds to the trace, and every event it adds belongs to a step that
  was not committed when it started, so the body of a committed step is not invoked again, a
  committed sitemap step fetches no sitemap and a committed scraping step scrapes no page;
  the events come in the order of the steps, so the retries of a step never go back to an
  earlier one; a run that returns has committed all five steps, the last one with the value
  it returns. A step the run gets past is committed when the run ends, also when a later step
  fails: when an event of a step occurs, every step before it is committed at the end, and no
  re-execution from there, in any world, adds an event of such a step. On a well-typed log
  the body of a step is invoked exactly when the step was not committed at the start and
  every step before it is committed at the end. What an attempt of the scraping step did
  before it failed is not committed: those pages are scraped again.
\<close>

theorem committed_steps_memoized:
  "(\<forall>n v. step_log s n = Some v \<longrightarrow> step_log (snd (run w payload s)) n = Some v) \<and>
   take (length (trace s)) (trace (snd (run w payload s))) = trace s \<and>
   (\<forall>e\<in>set (new_events s (snd (run w payload s))). step_log s (event_step e) = None) \<and>
   (\<forall>n. step_log s n \<noteq> None \<longrightarrow> Invoke n \<notin> set (new_events s (snd (run w payload s)))) \<and>
   (step_log s step2 \<noteq> None \<longrightarrow>
      (\<forall>url. SitemapGet url \<notin> set (new_events s (snd (run w payload s))))) \<and>
   (step_log s step3 \<noteq> None \<longrightarrow>
      (\<forall>url. ScrapePost url \<notin> set (new_events s (snd (run w payload s))))) \<and>
   sorted_wrt (\<lambda>a b. step_number (event_step a) \<le> step_number (event_step b))
     (new_events s (snd (run w payload s))) \<and>
   (\<forall>res. fst (run w payload s) = Inr res \<longrightarrow>
      (\<forall>n\<in>{step1, step2, step3, step4, step5}. step_log (snd (run w payload s)) n \<noteq> None) \<and>
      step_log (snd (run w payload s)) step5 = Some (VResult res)) \<and>
   (\<forall>e\<in>set (new_events s (snd (run w payload s))). \<forall>m.
      1 \<le> step_number m \<and> step_number m < step_number (event_step e) \<longrightarrow>
        step_log (snd (run w payload s)) m \<noteq> None \<and>
        (\<forall>w' payload'. \<forall>e'\<in>set (new_events (snd (run w payload s))
              (snd (run w' payload' (snd (run w payload s))))). event_step e' \<noteq> m)) \<and>
   (well_typed s \<longrightarrow>
      well_typed (snd (run w payload s)) \<and>
      (\<forall>n. 1 \<le> step_number n \<longrightarrow>
         (Invoke n \<in> set (new_events s (snd (run w payload s))) \<longleftrightarrow>
            step_log s n = None \<and>
            (\<forall>m. 1 \<le> step_number m \<and> step_number m < step_number n
                 \<longrightarrow> step_log (snd (run w payload s)) m \<noteq> None))))"
proof -
  let ?s' = "snd (run w payload s)"
  from run_resumes [of s w payload] obtain es where
    tr: "trace ?s' = trace s @ es"
    and ev: "\<forall>e\<in>set es. 1 \<le> step_number (event_step e) \<and> step_log s (event_step e) = None"
    and so: "sorted_wrt (\<lambda>a b. step_number (event_step a) \<le> step_number (event_step b)) es"
    and keep: "\<forall>n v. step_log s n = Some v \<longrightarrow> step_log ?s' n = Some v"
    and fin: "\<forall>x. fst (run w payload s) = Inr x \<longrightarrow>
               (\<forall>n. 1 \<le> step_number n \<longrightarrow> step_log ?s' n \<noteq> None)"
    unfolding resumes_from_def by blast
  have new: "new_events s ?s' = es"
    by (simp add: new_events_def tr)
  note rep = run_replays [of s w payload, unfolded replays_from_def new]
  have 1: "take (length (trace s)) (trace ?s') = trace s"
    by (simp add: tr)
  have 2: "\<forall>e\<in>set es. step_log s (event_step e) = None"
    using ev by blast
  have 3: "\<forall>n. step_log s n \<noteq> None \<longrightarrow> Invoke n \<notin> set es"
    using 2 by force
  have 4: "step_log s step2 \<noteq> None \<longrightarrow> (\<forall>url. SitemapGet url \<notin> set es)"
    using 2 by force
  have 5: "step_log s step3 \<noteq> None \<longrightarrow> (\<forall>url. ScrapePost url \<notin> set es)"
    using 2 by force
  have 6: "\<forall>res. fst (run w payload s) = Inr res \<longrightarrow>
      (\<forall>n\<in>{step1, step2, step3, step4, step5}. step_log ?s' n \<noteq> None) \<and>
      step_log ?s' step5 = Some (VResult res)"
  proof (intro allI impI conjI)
    fix res assume r: "fst (run w payload s) = Inr res"
    with fin show "\<forall>n\<in>{step1, step2, step3, step4, step5}. step_log ?s' n \<noteq> None"
      by (auto simp: step_number_steps)
    from r have "run w payload s = (Inr res, ?s')"
      by (cases "run w payload s") simp
    then show "step_log ?s' step5 = Some (VResult res)"
      by (rule run_result_committed)
  qed
  have 7: "\<forall>e\<in>set es. \<forall>m.
      1 \<le> step_number m \<and> step_number m < step_number (event_step e) \<longrightarrow>
        step_log ?s' m \<noteq> None \<and>
        (\<forall>w' payload'. \<forall>e'\<in>set (new_events ?s' (snd (run w' payload' ?s'))). event_step e' \<noteq> m)"
  proof (intro ballI allI impI conjI)
    fix e m
    assume e: "e \<in> set es"
      and m: "1 \<le> step_number m \<and> step_number m < step_number (event_step e)"
    with rep [THEN conjunct1] show c: "step_log ?s' m \<noteq> None"
      by blast
    fix w' payload' e'
    assume e': "e' \<in> set (new_events ?s' (snd (run w' payload' ?s')))"
    from run_resumes [of ?s' w' payload'] obtain es' where
      "trace (snd (run w' payload' ?s')) = trace ?s' @ es'"
      and "\<forall>e\<in>set es'. 1 \<le> step_number (event_step e) \<and> step_log ?s' (event_step e) = None"
      unfolding resumes_from_def by blast
    with e' have "step_log ?s' (event_step e') = None"
      by (simp add: new_events_def)
    with c show "event_step e' \<noteq> m"
      by auto
  qed
  note 8 = rep [THEN conjunct2]
  show ?thesis
    unfolding new
    by (intro conjI) (rule keep, rule 1, rule 2, rule 3, rule 4, rule 5, rule so, rule 6,
        rule 7, rule 8)
qed

theorem committed_steps_memoized_witness:
  "ScrapePost (str ''https://example.com/a'') \<in> set (new_events init interrupted) \<and>
   fst (run failing_world (example_payload (str ''https://example.com/sitemap.xml'')) init) =
     Inl (str ''Scrape Pages failed: fetch failed'') \<and>
   step_log interrupted step2 =
     Some (VUrls [str ''https://example.com/a'', str ''https://example.com/b'']) \<and>
   step_log completed step2 =
     Some (VUrls [str ''https://example.com/a'', str ''https://example.com/b'']) \<and>
   well_typed interrupted \<and> well_typed completed \<and>
   Invoke step1 \<notin> set (new_events interrupted completed) \<and>
   Invoke step2 \<notin> set (new_events interrupted completed) \<and>
   Invoke step3 \<in> set (new_events interrupted completed) \<and>
   SitemapGet (str ''https://example.com/sitemap.xml'') \<notin> set (new_events interrupted completed) \<and>
   step_log completed step5 =
     Some (VResult \<lparr>downloadUrl =
       public_prefix @ str ''example_com_2025-01-02T03-04-05-678Z.zip''\<rparr>) \<and>
   step_log completed step3 \<noteq> None \<and>
   ScrapePost (str ''https://example.com/a'') \<notin> set (new_events completed
      (snd (run failing_world (example_payload (str ''https://example.com/sitemap.xml''))
              completed)))"
proof -
  let ?p = "example_payload (str ''https://example.com/sitemap.xml'')"
  note first = committed_steps_memoized [where s = init and w = failing_world and payload = ?p,
      folded interrupted_def]
  note second = committed_steps_memoized [where s = interrupted and w = example_world
      and payload = ?p, folded completed_def]
  note third = committed_steps_memoized [where s = completed and w = failing_world
      and payload = ?p]
  have a: "ScrapePost (str ''https://example.com/a'') \<in> set (new_events init interrupted)"
    by (simp add: interrupted_state new_events_def init_def)
  have f: "fst (run failing_world ?p init) = Inl (str ''Scrape Pages failed: fetch failed'')"
    unfolding interrupted_run by simp
  have n: "step_number step1 = 1" "step_number step2 = 2" "step_number step3 = 3"
    by (rule step_number_steps)+
  from second interrupted_log(2)
  have k: "step_log completed step2 =
     Some (VUrls [str ''https://example.com/a'', str ''https://example.com/b''])"
    by blast
  from second well_typed_interrupted
  have wt: "well_typed completed"
    and iff: "\<forall>n. 1 \<le> step_number n \<longrightarrow>
         (Invoke n \<in> set (new_events interrupted completed) \<longleftrightarrow>
            step_log interrupted n = None \<and>
            (\<forall>m. 1 \<le> step_number m \<and> step_number m < step_number n
                 \<longrightarrow> step_log completed m \<noteq> None))"
    by blast+
  have "1 \<le> step_number step2 \<and>
      step_number step2 < step_number (event_step (ScrapePost (str ''https://example.com/a'')))"
    using n by simp
  with first a have "\<forall>w' payload'. \<forall>e'\<in>set (new_events interrupted
        (snd (run w' payload' interrupted))). event_step e' \<noteq> step2"
    by blast
  then have "\<forall>e'\<in>set (new_events interrupted completed). event_step e' \<noteq> step2"
    unfolding completed_def by blast
  then have i2: "Invoke step2 \<notin> set (new_events interrupted completed)"
    by force
  from second interrupted_log(1,2)
  have i1: "Invoke step1 \<notin> set (new_events interrupted completed)"
    and g: "SitemapGet (str ''https://example.com/sitemap.xml'') \<notin>
        set (new_events interrupted completed)"
    by simp_all
  from second resumed_run [THEN conjunct1]
  have c5: "step_log completed step5 =
     Some (VResult \<lparr>downloadUrl = public_prefix @ str ''example_com_2025-01-02T03-04-05-678Z.zip''\<rparr>)"
    and c3: "step_log completed step3 \<noteq> None"
    and c1: "step_log completed step1 \<noteq> None"
    by simp_all
  have i3: "Invoke step3 \<in> set (new_events interrupted completed)"
  proof -
    have "step_log completed m \<noteq> None" if "1 \<le> step_number m \<and> step_number m < step_number step3" for m
    proof -
      from that n have "step_number m = step_number step1 \<or> step_number m = step_number step2"
        by auto
      with that have "m = step1 \<or> m = step2"
        by (auto dest: step_number_inj)
      with c1 k show ?thesis by auto
    qed
    with iff [rule_format, of step3] interrupted_log(3) n show ?thesis
      by simp
  qed
  from third c3
  have r: "ScrapePost (str ''https://example.com/a'') \<notin> set (new_events completed
      (snd (run failing_world ?p completed)))"
    by simp
  from a f interrupted_log(2) k well_typed_interrupted wt i1 i2 i3 g c5 c3 r
  show ?thesis by blast
qed

text \<open>
  Claim C1 as stated fails for pages scraped by a scraping step that did not commit: the
  first page is scraped and the request for the second is rejected, in the first attempt of
  the step and in its retry, and the run fails; the re-execution does not fetch the sitemap
  again, but it requests the first page, scraped twice before, a third time.
\<close>

theorem scraped_pages_scraped_again:
  "fst (run failing_world (example_payload (str ''https://example.com/sitemap.xml'')) init) =
     Inl (str ''Scrape Pages failed: fetch failed'') \<and>
   new_events init interrupted =
     [Invoke step1, Invoke step2, SitemapGet (str ''https://example.com/sitemap.xml''),
      Invoke step3, ScrapePost (str ''https://example.com/a''), Delay 3000,
      ScrapePost (str ''https://example.com/b''),
      Invoke step3, ScrapePost (str ''https://example.com/a''), Delay 3000,
      ScrapePost (str ''https://example.com/b'')] \<and>
   new_events interrupted completed =
     [Invoke step3, ScrapePost (str ''https://example.com/a''), Warn (str ''https://example.com/a''),
      ScrapePost (str ''https://example.com/b''), Delay 3000,
      Invoke step4, BucketPut (str ''example_com_2025-01-02T03-04-05-678Z.zip''),
      Invoke step5]"
proof -
  have "fst (run failing_world (example_payload (str ''https://example.com/sitemap.xml'')) init) =
     Inl (str ''Scrape Pages failed: fetch failed'')"
    unfolding interrupted_run by simp
  moreover have "new_events init interrupted =
     [Invoke step1, Invoke step2, SitemapGet (str ''https://example.com/sitemap.xml''),
      Invoke step3, ScrapePost (str ''https://example.com/a''), Delay 3000,
      ScrapePost (str ''https://example.com/b''),
      Invoke step3, ScrapePost (str ''https://example.com/a''), Delay 3000,
      ScrapePost (str ''https://example.com/b'')]"
    by (simp add: interrupted_state new_events_def init_def)
  ultimately show ?thesis
    using resumed_run [THEN conjunct2] by (intro conjI)
qed

end
